theory Spec2Isabelle
  imports Main "HOL-Library.List_Lexorder" "HOL-Library.Product_Lexorder"
begin

unbundle bit_operations_syntax

section \<open>Python values\<close>

text \<open>
  A Python \<open>str\<close> is a sequence of Unicode code points; \<open>len\<close> counts code points and
  comparison is lexicographic by code point. Strings are therefore lists of naturals.
  \<open>ascii\<close> reads an ASCII literal.
\<close>

type_synonym codepoint = nat
type_synonym pystr = "codepoint list"

definition ascii :: "string \<Rightarrow> pystr" where
  "ascii s = map of_char s"

datatype py_error = IndexError | ValueError

text \<open>
  \<open>str.isspace\<close>, which decides what \<open>str.strip()\<close> removes: the code points with
  bidirectional class WS, B or S, or general category Zs.
\<close>

definition py_isspace :: "codepoint \<Rightarrow> bool" where
  "py_isspace c \<longleftrightarrow>
     (9 \<le> c \<and> c \<le> 13) \<or> (28 \<le> c \<and> c \<le> 32) \<or> c = 133 \<or> c = 160 \<or> c = 5760 \<or>
     (8192 \<le> c \<and> c \<le> 8202) \<or> c = 8232 \<or> c = 8233 \<or> c = 8239 \<or> c = 8287 \<or> c = 12288"

definition strip :: "pystr \<Rightarrow> pystr" where
  "strip s = rev (dropWhile py_isspace (rev (dropWhile py_isspace s)))"

text \<open>\<open>" ".join(parts)\<close>.\<close>

fun join_sp :: "pystr list \<Rightarrow> pystr" where
  "join_sp [] = []"
| "join_sp [x] = x"
| "join_sp (x # y # ys) = x @ [32] @ join_sp (y # ys)"

text \<open>\<open>s.split(sep)\<close> for a one-character separator: never empty, \<open>"".split(sep) == ['']\<close>.\<close>

fun split_on :: "codepoint \<Rightarrow> pystr \<Rightarrow> pystr list" where
  "split_on sep [] = [[]]"
| "split_on sep (c # cs) =
     (if c = sep then [] # split_on sep cs
      else (case split_on sep cs of [] \<Rightarrow> [[c]] | l # ls \<Rightarrow> (c # l) # ls))"

text \<open>\<open>str(n)\<close> for an integer, as the f-string \<open>f"H{level}"\<close> formats it.\<close>

fun str_of_nat :: "nat \<Rightarrow> pystr" where
  "str_of_nat n = (if n < 10 then [48 + n] else str_of_nat (n div 10) @ [48 + n mod 10])"

declare str_of_nat.simps [simp del]

definition str_of_int :: "int \<Rightarrow> pystr" where
  "str_of_int i = (if i < 0 then 45 # str_of_nat (nat (- i)) else str_of_nat (nat i))"

definition level_label :: "int \<Rightarrow> pystr" where
  "level_label l = 72 # str_of_int l"

section \<open>The parsed document\<close>

text \<open>
  What the PDF parser hands over. A span carries its text, its font size already rounded
  (\<open>round(span['size'])\<close>) and its font flags; a block carries its type tag (0 for text),
  its lines (each a list of spans) and its bounding box, which the program only copies.
\<close>

record span =
  span_text :: pystr
  span_size :: int
  span_flags :: int

record 'b block =
  block_type :: int
  block_lines :: "span list list"
  block_bbox :: 'b

text \<open>An interactive form widget: its name, its type label and its value.\<close>

record 'v widget =
  field_name :: pystr
  field_type_string :: pystr
  field_value :: 'v

record ('b, 'v) page =
  page_text :: pystr
  page_blocks :: "'b block list"
  page_widgets :: "'v widget list"

text \<open>
  The document: \<open>doc_title\<close> is \<open>doc.metadata and doc.metadata.get('title')\<close> (\<open>None\<close>
  when there is no metadata or no title in it), \<open>doc_toc\<close> is \<open>doc.get_toc()\<close>, a list of
  \<open>(level, title, page)\<close>.
\<close>

record ('b, 'v) document =
  doc_title :: "pystr option"
  doc_pages :: "('b, 'v) page list"
  doc_toc :: "(int \<times> pystr \<times> int) list"

type_synonym style = "int \<times> int"

text \<open>The dictionaries appended to \<open>all_blocks\<close>.\<close>

record 'b tblock =
  tb_style :: style
  tb_text :: pystr
  tb_page :: int
  tb_bbox :: 'b

section \<open>Style histogram\<close>

text \<open>
  \<open>styles\<close> is a \<open>collections.Counter\<close>: a dictionary, so it iterates in insertion order.
  It is an association list with distinct keys; \<open>styles[k] += n\<close> adds to the entry of an
  existing key where it stands and appends a new key at the end.
\<close>

type_synonym counter = "(style \<times> nat) list"

fun counter_add :: "style \<Rightarrow> nat \<Rightarrow> counter \<Rightarrow> counter" where
  "counter_add k n [] = [(k, n)]"
| "counter_add k n ((k', v) # rest) =
     (if k' = k then (k', v + n) # rest else (k', v) # counter_add k n rest)"

definition block_text_of :: "'b block \<Rightarrow> pystr" where
  "block_text_of b = strip (join_sp (map span_text (concat (block_lines b))))"

text \<open>\<open>block['lines'][0]['spans'][0]\<close>, an \<open>IndexError\<close> when the list indexed is empty.\<close>

definition first_span :: "'b block \<Rightarrow> py_error + span" where
  "first_span b =
     (case block_lines b of
        [] \<Rightarrow> Inl IndexError
      | l # _ \<Rightarrow> (case l of [] \<Rightarrow> Inl IndexError | sp # _ \<Rightarrow> Inr sp))"

definition style_key_of :: "span \<Rightarrow> style" where
  "style_key_of sp = (span_size sp, span_flags sp AND 1)"

text \<open>The inner loop over the blocks of page number \<open>page_num\<close> (0-based).\<close>

fun scan_blocks ::
  "nat \<Rightarrow> 'b block list \<Rightarrow> counter \<times> 'b tblock list \<Rightarrow> py_error + (counter \<times> 'b tblock list)"
where
  "scan_blocks page_num [] st = Inr st"
| "scan_blocks page_num (b # bs) (styles, all_blocks) =
     (if block_type b = 0 then
        (let block_text = block_text_of b in
         if block_text = [] then scan_blocks page_num bs (styles, all_blocks)
         else
           (case first_span b of
              Inl e \<Rightarrow> Inl e
            | Inr sp \<Rightarrow>
                (let style_key = style_key_of sp in
                 scan_blocks page_num bs
                   (counter_add style_key (length block_text) styles,
                    all_blocks @ [\<lparr>tb_style = style_key, tb_text = block_text,
                                   tb_page = int page_num + 1, tb_bbox = block_bbox b\<rparr>]))))
      else scan_blocks page_num bs (styles, all_blocks))"

text \<open>The outer loop over the pages; the state is \<open>(styles, all_blocks, full_text)\<close>.\<close>

fun scan_pages ::
  "nat \<Rightarrow> ('b, 'v) page list \<Rightarrow> counter \<times> 'b tblock list \<times> pystr \<Rightarrow>
   py_error + (counter \<times> 'b tblock list \<times> pystr)"
where
  "scan_pages page_num [] st = Inr st"
| "scan_pages page_num (p # ps) (styles, all_blocks, full_text) =
     (case scan_blocks page_num (page_blocks p) (styles, all_blocks) of
        Inl e \<Rightarrow> Inl e
      | Inr (styles', all_blocks') \<Rightarrow>
          scan_pages (page_num + 1) ps (styles', all_blocks', full_text @ page_text p @ [10]))"

section \<open>Body and heading styles\<close>

text \<open>
  \<open>styles.most_common(1)\<close> is \<open>heapq.nlargest(1, styles.items(), key=itemgetter(1))\<close>, which
  for \<open>n == 1\<close> is \<open>max(items, key=...)\<close>: the running maximum is replaced only by a strictly
  greater count, so the earliest entry among equal counts is kept.
\<close>

fun max_first :: "style \<times> nat \<Rightarrow> counter \<Rightarrow> style \<times> nat" where
  "max_first best [] = best"
| "max_first best (x # xs) = max_first (if snd best < snd x then x else best) xs"

definition is_heading_style :: "style \<Rightarrow> style \<Rightarrow> bool" where
  "is_heading_style body_style s \<longleftrightarrow>
     fst s > fst body_style \<or> (fst s = fst body_style \<and> snd s > snd body_style)"

definition heading_styles :: "style \<Rightarrow> counter \<Rightarrow> style list" where
  "heading_styles body_style styles = filter (is_heading_style body_style) (map fst styles)"

text \<open>\<open>sorted({s[0] for s in heading_styles}, reverse=True)\<close>: the distinct sizes, descending.\<close>

definition sorted_heading_sizes :: "style list \<Rightarrow> int list" where
  "sorted_heading_sizes hs = rev (sort (remdups (map fst hs)))"

text \<open>A dictionary as an insertion-ordered association list; \<open>d[k] = v\<close>.\<close>

fun dict_set :: "'k \<Rightarrow> 'v \<Rightarrow> ('k \<times> 'v) list \<Rightarrow> ('k \<times> 'v) list" where
  "dict_set k v [] = [(k, v)]"
| "dict_set k v ((k', v') # rest) =
     (if k' = k then (k', v) # rest else (k', v') # dict_set k v rest)"

text \<open>\<open>{size: f"H{i+1}" for i, size in enumerate(sorted_heading_sizes)}\<close>.\<close>

definition level_map :: "int list \<Rightarrow> (int \<times> pystr) list" where
  "level_map sizes =
     fold (\<lambda>(i, size) m. dict_set size (level_label (int i + 1)) m) (enumerate 0 sizes) []"

section \<open>Regular expressions\<close>

text \<open>
  The patterns are matched by the \<open>regex\<close> module on \<open>str\<close>. \<open>\s\<close> is the Unicode
  White_Space property (it differs from \<open>str.isspace\<close> on U+001C..U+001F), and \<open>.\<close> is
  every code point but the line feed.
\<close>

definition re_space :: "codepoint \<Rightarrow> bool" where
  "re_space c \<longleftrightarrow>
     (9 \<le> c \<and> c \<le> 13) \<or> c = 32 \<or> c = 133 \<or> c = 160 \<or> c = 5760 \<or>
     (8192 \<le> c \<and> c \<le> 8202) \<or> c = 8232 \<or> c = 8233 \<or> c = 8239 \<or> c = 8287 \<or> c = 12288"

definition re_dot :: "codepoint \<Rightarrow> bool" where
  "re_dot c \<longleftrightarrow> c \<noteq> 10"

text \<open>
  What the program reaches through its libraries and depends on their versions is a
  parameter of the model: \<open>str.lower\<close>, the classes \<open>\d\<close>, \<open>\p{N}\<close> and \<open>\w\<close> of the
  \<open>regex\<close> module, which text character a pattern character matches under
  \<open>IGNORECASE\<close>, the value \<open>int()\<close> gives a decimal digit (\<open>None\<close> for a character
  \<open>int()\<close> rejects), and the interpreter's limit on the digits of an integer literal
  (\<open>sys.get_int_max_str_digits()\<close>, \<open>None\<close> when it has none).
\<close>

record platform =
  uc_lower :: "pystr \<Rightarrow> pystr"
  uc_re_digit :: "codepoint \<Rightarrow> bool"
  uc_re_numeric :: "codepoint \<Rightarrow> bool"
  uc_re_word :: "codepoint \<Rightarrow> bool"
  uc_re_caseless :: "codepoint \<Rightarrow> codepoint \<Rightarrow> bool"
  uc_int_digit :: "codepoint \<Rightarrow> nat option"
  int_max_str_digits :: "nat option"

subsection \<open>The bullet pattern\<close>

text \<open>
  \<open>bullet_pattern\<close> is \<^verbatim>\<open>^\s*([...])\s+(.*)\<close>, its class holding the glyphs U+2022, U+25CF, U+F0B7
  and the hyphen, applied by \<open>match\<close> (anchored at the start). No glyph is white space, so
  the greedy \<open>\s*\<close> can only stop at the first character that is not white space; the
  greedy \<open>\s+\<close> takes the whole run of white space after the glyph, and \<open>(.*)\<close>, which
  matches the empty string too, succeeds at that first attempt. The result is group 2.
\<close>

definition bullet_glyph :: "codepoint \<Rightarrow> bool" where
  "bullet_glyph c \<longleftrightarrow> c = 8226 \<or> c = 9679 \<or> c = 61623 \<or> c = 45"

definition bullet_match :: "pystr \<Rightarrow> pystr option" where
  "bullet_match s =
     (case dropWhile re_space s of
        [] \<Rightarrow> None
      | c # r \<Rightarrow>
          if bullet_glyph c \<and> takeWhile re_space r \<noteq> []
          then Some (takeWhile re_dot (dropWhile re_space r))
          else None)"

subsection \<open>Searching without groups\<close>

text \<open>
  \<open>re.search(p, s)\<close> used as a truth value, for a pattern without anchors, groups that
  are read, look-around or back-references, holds iff some substring of \<open>s\<close> is in the
  regular language of \<open>p\<close>. The language is decided by derivatives.
\<close>

datatype rx =
  Nul
  | Eps
  | Chr "codepoint \<Rightarrow> bool"
  | Seq rx rx
  | Alt rx rx
  | Star rx

fun nullable :: "rx \<Rightarrow> bool" where
  "nullable Nul = False"
| "nullable Eps = True"
| "nullable (Chr p) = False"
| "nullable (Seq r s) = (nullable r \<and> nullable s)"
| "nullable (Alt r s) = (nullable r \<or> nullable s)"
| "nullable (Star r) = True"

fun deriv :: "codepoint \<Rightarrow> rx \<Rightarrow> rx" where
  "deriv c Nul = Nul"
| "deriv c Eps = Nul"
| "deriv c (Chr p) = (if p c then Eps else Nul)"
| "deriv c (Seq r s) =
     (if nullable r then Alt (Seq (deriv c r) s) (deriv c s) else Seq (deriv c r) s)"
| "deriv c (Alt r s) = Alt (deriv c r) (deriv c s)"
| "deriv c (Star r) = Seq (deriv c r) (Star r)"

definition rx_matches :: "rx \<Rightarrow> pystr \<Rightarrow> bool" where
  "rx_matches r s = nullable (fold deriv s r)"

definition rx_search :: "rx \<Rightarrow> pystr \<Rightarrow> bool" where
  "rx_search r s = rx_matches (Seq (Star (Chr (\<lambda>c. True))) (Seq r (Star (Chr (\<lambda>c. True))))) s"

definition Plus :: "rx \<Rightarrow> rx" where
  "Plus r = Seq r (Star r)"

definition Lit :: "pystr \<Rightarrow> rx" where
  "Lit s = foldr (\<lambda>c r. Seq (Chr (\<lambda>d. d = c)) r) s Eps"

text \<open>\<open>needle in s\<close> and \<open>s.replace(old, new)\<close> for a non-empty \<open>old\<close>.\<close>

fun starts_with :: "pystr \<Rightarrow> pystr \<Rightarrow> bool" where
  "starts_with [] s = True"
| "starts_with (p # ps) [] = False"
| "starts_with (p # ps) (c # cs) = (p = c \<and> starts_with ps cs)"

fun contains :: "pystr \<Rightarrow> pystr \<Rightarrow> bool" where
  "contains needle [] = (needle = [])"
| "contains needle (c # cs) = (starts_with needle (c # cs) \<or> contains needle cs)"

function replace :: "pystr \<Rightarrow> pystr \<Rightarrow> pystr \<Rightarrow> pystr" where
  "replace old new s =
     (if old = [] \<or> s = [] then s
      else if starts_with old s then new @ replace old new (drop (length old) s)
      else hd s # replace old new (tl s))"
  by pat_completeness auto
termination
  by (relation "measure (\<lambda>(old, new, s). length s)") auto

declare replace.simps [simp del]

section \<open>Block classifier\<close>

text \<open>The two patterns of \<open>classify_content_block\<close>.\<close>

definition website_rx :: rx where
  "website_rx = Seq (Lit (ascii ''www.'')) (Seq (Plus (Chr re_dot)) (Lit (ascii ''.com'')))"

definition az :: "codepoint \<Rightarrow> bool" where
  "az c \<longleftrightarrow> 97 \<le> c \<and> c \<le> 122"

definition address_rx :: "platform \<Rightarrow> rx" where
  "address_rx U =
     Seq (Plus (Chr (uc_re_digit U)))
    (Seq (Plus (Chr re_space))
    (Seq (Plus (Chr (\<lambda>c. az c \<or> re_space c)))
    (Seq (Lit [44])
    (Seq (Plus (Chr re_space))
    (Seq (Chr az) (Seq (Chr az)
    (Seq (Plus (Chr re_space))
         (Plus (Chr (uc_re_digit U))))))))))"

definition classify_content_block :: "platform \<Rightarrow> pystr \<Rightarrow> pystr" where
  "classify_content_block U block_text =
     (let text_lower = uc_lower U block_text in
      if rx_search website_rx text_lower then ascii ''website''
      else if contains (ascii ''address:'') text_lower \<or> rx_search (address_rx U) text_lower
      then ascii ''address''
      else if contains (ascii ''rsvp:'') text_lower then ascii ''rsvp''
      else ascii ''paragraph'')"


section \<open>Outline and content assembler\<close>

record 'b content_section =
  sec_type :: pystr
  sec_content :: pystr
  sec_page :: int
  sec_bbox :: 'b
  sec_level :: int

record outline_entry =
  ol_level :: pystr
  ol_text :: pystr
  ol_page :: int

record list_record =
  lr_page :: int
  lr_items :: "pystr list"

text \<open>\<open>xs.index(x)\<close>; \<open>None\<close> stands for the \<open>ValueError\<close> of an absent element.\<close>

fun index_of :: "'a \<Rightarrow> 'a list \<Rightarrow> nat option" where
  "index_of x [] = None"
| "index_of x (y # ys) = (if y = x then Some 0 else map_option Suc (index_of x ys))"

text \<open>
  The loop \<open>for line in lines\<close> of the list branch: every line whose stripped text matches
  the bullet pattern appends one record to \<open>lists\<close> and one section to
  \<open>content_sections\<close>; \<open>level\<close> is still 0 there.
\<close>

fun emit_list_items ::
  "'b tblock \<Rightarrow> pystr list \<Rightarrow> 'b content_section list \<times> list_record list \<Rightarrow>
   'b content_section list \<times> list_record list"
where
  "emit_list_items block [] acc = acc"
| "emit_list_items block (line # lines) (content_sections, list_recs) =
     (case bullet_match (strip line) of
        None \<Rightarrow> emit_list_items block lines (content_sections, list_recs)
      | Some g2 \<Rightarrow>
          (let item_text = strip g2 in
           emit_list_items block lines
             (content_sections @
                [\<lparr>sec_type = ascii ''list_item'', sec_content = item_text,
                  sec_page = tb_page block, sec_bbox = tb_bbox block, sec_level = 0\<rparr>],
              list_recs @ [\<lparr>lr_page = tb_page block, lr_items = [item_text]\<rparr>])))"

text \<open>
  One iteration of \<open>for block in all_blocks\<close>; the state is
  \<open>(content_sections, outline, lists)\<close>.
\<close>

definition process_block ::
  "platform \<Rightarrow> style list \<Rightarrow> int list \<Rightarrow> (int \<times> pystr) list \<Rightarrow> 'b tblock \<Rightarrow>
   'b content_section list \<times> outline_entry list \<times> list_record list \<Rightarrow>
   py_error + ('b content_section list \<times> outline_entry list \<times> list_record list)"
where
  "process_block U hstyles sizes lmap block st =
     (case st of (content_sections, outline, list_recs) \<Rightarrow>
      if list_all (\<lambda>c. c = 46) (strip (tb_text block)) then Inr st
      else
        (let is_heading = (tb_style block \<in> set hstyles);
             lines = split_on 10 (tb_text block);
             list_items = map (\<lambda>line. bullet_match (strip line)) lines
         in
         if list_ex (\<lambda>m. m \<noteq> None) list_items then
           (case emit_list_items block lines (content_sections, list_recs) of
              (content_sections', list_recs') \<Rightarrow> Inr (content_sections', outline, list_recs'))
         else if is_heading then
           (case index_of (fst (tb_style block)) sizes of
              None \<Rightarrow> Inl ValueError
            | Some i \<Rightarrow>
                (let level = int (length lmap) - int i in
                 Inr (content_sections @
                        [\<lparr>sec_type = ascii ''heading'', sec_content = tb_text block,
                          sec_page = tb_page block, sec_bbox = tb_bbox block,
                          sec_level = level\<rparr>],
                      outline @
                        [\<lparr>ol_level = level_label level, ol_text = tb_text block,
                          ol_page = tb_page block\<rparr>],
                      list_recs)))
         else
           (let semantic_type = classify_content_block U (tb_text block) in
            Inr (content_sections @
                   [\<lparr>sec_type = semantic_type, sec_content = tb_text block,
                     sec_page = tb_page block, sec_bbox = tb_bbox block, sec_level = 0\<rparr>],
                 outline, list_recs))))"

fun process_blocks ::
  "platform \<Rightarrow> style list \<Rightarrow> int list \<Rightarrow> (int \<times> pystr) list \<Rightarrow> 'b tblock list \<Rightarrow>
   'b content_section list \<times> outline_entry list \<times> list_record list \<Rightarrow>
   py_error + ('b content_section list \<times> outline_entry list \<times> list_record list)"
where
  "process_blocks U hstyles sizes lmap [] st = Inr st"
| "process_blocks U hstyles sizes lmap (block # blocks) st =
     (case process_block U hstyles sizes lmap block st of
        Inl e \<Rightarrow> Inl e
      | Inr st' \<Rightarrow> process_blocks U hstyles sizes lmap blocks st')"

definition toc_outline :: "(int \<times> pystr \<times> int) list \<Rightarrow> outline_entry list" where
  "toc_outline toc =
     map (\<lambda>(level, title, page). \<lparr>ol_level = level_label level, ol_text = title, ol_page = page\<rparr>)
       toc"

text \<open>
  \<open>extract_content_and_outline\<close> returns
  \<open>(content_sections, outline, full_text, lists)\<close>, or raises.
\<close>

definition extract_content_and_outline ::
  "platform \<Rightarrow> ('b, 'v) document \<Rightarrow>
   py_error + ('b content_section list \<times> outline_entry list \<times> pystr \<times> list_record list)"
where
  "extract_content_and_outline U doc =
     (case scan_pages 0 (doc_pages doc) ([], [], []) of
        Inl e \<Rightarrow> Inl e
      | Inr (styles, all_blocks, full_text) \<Rightarrow>
          (case styles of
             [] \<Rightarrow> Inr ([], [], strip full_text, [])
           | first # others \<Rightarrow>
               (let body_style = fst (max_first first others);
                    hstyles = heading_styles body_style styles;
                    sizes = sorted_heading_sizes hstyles;
                    lmap = level_map sizes
                in
                case process_blocks U hstyles sizes lmap all_blocks ([], [], []) of
                  Inl e \<Rightarrow> Inl e
                | Inr (content_sections, outline, list_recs) \<Rightarrow>
                    Inr (content_sections,
                         if doc_toc doc \<noteq> [] then toc_outline (doc_toc doc) else outline,
                         strip full_text, list_recs))))"


section \<open>Title from the metadata\<close>

text \<open>
  \<open>Path(title).stem\<close> on a POSIX path: the name is the last component that is neither
  empty nor \<open>.\<close> (the empty string when there is none); the stem cuts the name at its last
  dot unless that dot is the first or the last character.
\<close>

definition path_name :: "pystr \<Rightarrow> pystr" where
  "path_name p =
     (case filter (\<lambda>x. x \<noteq> [] \<and> x \<noteq> [46]) (split_on 47 p) of
        [] \<Rightarrow> []
      | part # parts \<Rightarrow> last (part # parts))"

text \<open>\<open>s.rfind(c)\<close>; \<open>None\<close> stands for \<open>-1\<close>.\<close>

definition rfind :: "codepoint \<Rightarrow> pystr \<Rightarrow> nat option" where
  "rfind c s = map_option (\<lambda>j. length s - 1 - j) (index_of c (rev s))"

definition path_stem :: "pystr \<Rightarrow> pystr" where
  "path_stem p =
     (let name = path_name p in
      case rfind 46 name of
        None \<Rightarrow> name
      | Some i \<Rightarrow> if 0 < i \<and> i + 1 < length name then take i name else name)"

definition word_marker :: pystr where
  "word_marker = ascii ''Microsoft Word -''"

definition get_document_title :: "('b, 'v) document \<Rightarrow> pystr" where
  "get_document_title doc =
     (case doc_title doc of
        None \<Rightarrow> []
      | Some t \<Rightarrow>
          if t = [] then []
          else
            (let title = strip t;
                 title = (if contains word_marker title
                          then strip (replace word_marker [] title) else title)
             in path_stem title))"

section \<open>Interactive form fields\<close>

record 'v form_field =
  ff_name :: pystr
  ff_type :: pystr
  ff_value :: 'v
  ff_page :: int

definition extract_form_fields :: "('b, 'v) document \<Rightarrow> 'v form_field list" where
  "extract_form_fields doc =
     concat (map (\<lambda>(number, page).
                    map (\<lambda>field. \<lparr>ff_name = field_name field, ff_type = field_type_string field,
                                    ff_value = field_value field, ff_page = int number + 1\<rparr>)
                      (page_widgets page))
               (enumerate 0 (doc_pages doc)))"

section \<open>Static form fields\<close>

text \<open>
  A greedy quantifier takes the longest run first and gives characters back one at a
  time until what follows it matches: \<open>backtrack f lo k\<close> tries the counts
  \<open>k, k - 1, ..., lo\<close> and returns the first success of \<open>f\<close>.
\<close>

fun backtrack :: "(nat \<Rightarrow> 'a option) \<Rightarrow> nat \<Rightarrow> nat \<Rightarrow> 'a option" where
  "backtrack f lo 0 = (if lo = 0 then f 0 else None)"
| "backtrack f lo (Suc k) =
     (if Suc k < lo then None
      else (case f (Suc k) of Some r \<Rightarrow> Some r | None \<Rightarrow> backtrack f lo k))"

definition greedy ::
  "(codepoint \<Rightarrow> bool) \<Rightarrow> nat \<Rightarrow> pystr \<Rightarrow> (pystr \<Rightarrow> pystr \<Rightarrow> 'a option) \<Rightarrow> 'a option"
where
  "greedy cls lo s cont =
     backtrack (\<lambda>n. cont (take n s) (drop n s)) lo (length (takeWhile cls s))"

text \<open>
  The look-ahead \<^verbatim>\<open>(?:table of contents|appendix)\b\<close> under \<open>IGNORECASE\<close>: a literal is
  matched character by character, and \<^verbatim>\<open>\b\<close> holds where exactly one of the characters
  before and after the position is a word character (the end of the text is none).
\<close>

fun caseless_lit ::
  "platform \<Rightarrow> pystr \<Rightarrow> codepoint option \<Rightarrow> pystr \<Rightarrow> (codepoint option \<times> pystr) option"
where
  "caseless_lit U [] prev s = Some (prev, s)"
| "caseless_lit U (p # ps) prev [] = None"
| "caseless_lit U (p # ps) prev (c # cs) =
     (if uc_re_caseless U p c then caseless_lit U ps (Some c) cs else None)"

definition is_word_opt :: "platform \<Rightarrow> codepoint option \<Rightarrow> bool" where
  "is_word_opt U x = (case x of None \<Rightarrow> False | Some c \<Rightarrow> uc_re_word U c)"

definition phrase_then_boundary :: "platform \<Rightarrow> pystr \<Rightarrow> pystr \<Rightarrow> bool" where
  "phrase_then_boundary U phrase s =
     (case caseless_lit U phrase None s of
        None \<Rightarrow> False
      | Some (prev, rest) \<Rightarrow>
          is_word_opt U prev \<noteq> is_word_opt U (case rest of [] \<Rightarrow> None | c # _ \<Rightarrow> Some c))"

definition toc_or_appendix :: "platform \<Rightarrow> pystr \<Rightarrow> bool" where
  "toc_or_appendix U s \<longleftrightarrow>
     phrase_then_boundary U (ascii ''table of contents'') s \<or>
     phrase_then_boundary U (ascii ''appendix'') s"

text \<open>
  One attempt of the pattern
  \<^verbatim>\<open>^(?!(?:table of contents|appendix)\b)\s*(\p{N}+[\.\)])\s+(.+)$\<close>
  at a position where \<^verbatim>\<open>^\<close> holds. The result is group 1, group 2 and the text after the
  match. The greedy \<^verbatim>\<open>.+\<close> runs to the end of the line, where \<^verbatim>\<open>$\<close> holds under
  \<open>MULTILINE\<close>, so it is never asked to give a character back.
\<close>

definition match_label :: "pystr \<Rightarrow> pystr \<Rightarrow> (pystr \<times> pystr \<times> pystr) option" where
  "match_label g1 s4 =
     (let g2 = takeWhile re_dot s4 in
      if g2 = [] then None else Some (g1, g2, drop (length g2) s4))"

definition match_numeral :: "platform \<Rightarrow> pystr \<Rightarrow> (pystr \<times> pystr \<times> pystr) option" where
  "match_numeral U s1 =
     greedy (uc_re_numeric U) 1 s1 (\<lambda>num s2.
       (case s2 of
          [] \<Rightarrow> None
        | c # s3 \<Rightarrow>
            if c = 46 \<or> c = 41
            then greedy re_space 1 s3 (\<lambda>ws2 s4. match_label (num @ [c]) s4)
            else None))"

definition match_here :: "platform \<Rightarrow> pystr \<Rightarrow> (pystr \<times> pystr \<times> pystr) option" where
  "match_here U s =
     (if toc_or_appendix U s then None
      else greedy re_space 0 s (\<lambda>ws1 s1. match_numeral U s1))"

text \<open>
  \<open>pattern.finditer(full_text)\<close>: the matches from left to right, each search resuming
  where the last match ended. \<open>bol\<close> tells whether \<^verbatim>\<open>^\<close> holds at the current position
  (the start of the text, or just after a line feed); a match ends after a character
  that is no line feed, so \<^verbatim>\<open>^\<close> does not hold where the search resumes.
\<close>

function find_fields :: "platform \<Rightarrow> bool \<Rightarrow> pystr \<Rightarrow> (pystr \<times> pystr) list" where
  "find_fields U bol s =
     (case (if bol then match_here U s else None) of
        Some (g1, g2, rest) \<Rightarrow> (g1, g2) # find_fields U False rest
      | None \<Rightarrow> (case s of [] \<Rightarrow> [] | c # cs \<Rightarrow> find_fields U (c = 10) cs))"
  by pat_completeness auto
termination
proof -
  have bt: "\<exists>n. lo \<le> n \<and> n \<le> k \<and> f n = Some r"
    if "backtrack f lo k = Some r" for f :: "nat \<Rightarrow> (pystr \<times> pystr \<times> pystr) option" and lo k r
    using that
  proof (induction k)
    case 0
    then show ?case by (auto split: if_splits)
  next
    case (Suc k)
    show ?case
    proof (cases "f (Suc k)")
      case None
      with Suc.prems have "backtrack f lo k = Some r" by (auto split: if_splits)
      from Suc.IH [OF this] show ?thesis by (meson le_Suc_eq)
    next
      case (Some a)
      with Suc.prems have "lo \<le> Suc k" and "f (Suc k) = Some r"
        by (auto split: if_splits)
      then show ?thesis by blast
    qed
  qed
  have gr: "\<exists>pre post. s' = pre @ post \<and> lo \<le> length pre \<and> cont pre post = Some r"
    if "greedy cls lo s' cont = Some r"
    for cls lo s' r and cont :: "pystr \<Rightarrow> pystr \<Rightarrow> (pystr \<times> pystr \<times> pystr) option"
  proof -
    from bt that obtain n where n: "lo \<le> n" "n \<le> length (takeWhile cls s')"
      "cont (take n s') (drop n s') = Some r"
      unfolding greedy_def by blast
    have "n \<le> length s'" using n(2) length_takeWhile_le [of cls s'] by (rule le_trans)
    with n show ?thesis
      by (metis append_take_drop_id length_take min.absorb2)
  qed
  have lab: "length r \<le> length s4" if "match_label g s4 = Some (a, b, r)" for g s4 a b r
    using that by (auto simp: match_label_def Let_def split: if_splits)
  have num: "length r < length s1" if h: "match_numeral U s1 = Some (a, b, r)" for U s1 a b r
  proof -
    from gr [OF h [unfolded match_numeral_def]] obtain n s2 where 2: "s1 = n @ s2"
      and n1: "1 \<le> length n"
      and c2: "(case s2 of [] \<Rightarrow> None
                | c # s3 \<Rightarrow> if c = 46 \<or> c = 41
                    then greedy re_space 1 s3 (\<lambda>ws2 s4. match_label (n @ [c]) s4)
                    else None) = Some (a, b, r)"
      by blast
    from c2 obtain c s3 where 3: "s2 = c # s3"
      and c3: "greedy re_space 1 s3 (\<lambda>ws2 s4. match_label (n @ [c]) s4) = Some (a, b, r)"
      by (auto split: list.splits if_splits)
    from gr [OF c3] obtain ws2 s4 where 4: "s3 = ws2 @ s4"
      and c4: "match_label (n @ [c]) s4 = Some (a, b, r)"
      by blast
    from lab [OF c4] 2 3 4 show ?thesis by simp
  qed
  have key: "length rest < length s" if mh: "match_here U s = Some (g1, g2, rest)"
    for U s g1 g2 rest
  proof -
    from mh have "greedy re_space 0 s (\<lambda>ws1 s1. match_numeral U s1) = Some (g1, g2, rest)"
      unfolding match_here_def by (simp split: if_splits)
    from gr [OF this] obtain ws1 s1 where 1: "s = ws1 @ s1"
      and "match_numeral U s1 = Some (g1, g2, rest)"
      by blast
    from num [OF this(2)] 1 show ?thesis by simp
  qed
  show ?thesis
    by (relation "measure (\<lambda>(U, bol, s). length s)") (auto split: if_splits dest: key)
qed

declare find_fields.simps [simp del]

text \<open>
  \<open>int(s)\<close> on a string of decimal digits. It raises \<open>ValueError\<close> on the empty string, on
  a character that is no decimal digit for Python, and on a string longer than the
  interpreter's limit on integer digits, when it has one.
\<close>

fun digits_value :: "platform \<Rightarrow> nat \<Rightarrow> pystr \<Rightarrow> nat option" where
  "digits_value U acc [] = Some acc"
| "digits_value U acc (c # cs) =
     (case uc_int_digit U c of None \<Rightarrow> None | Some d \<Rightarrow> digits_value U (10 * acc + d) cs)"

definition py_int :: "platform \<Rightarrow> pystr \<Rightarrow> py_error + int" where
  "py_int U s =
     (if s = [] then Inl ValueError
      else if (case int_max_str_digits U of None \<Rightarrow> False | Some m \<Rightarrow> m < length s)
      then Inl ValueError
      else (case digits_value U 0 s of None \<Rightarrow> Inl ValueError | Some n \<Rightarrow> Inr (int n)))"

record static_field =
  sf_field_number :: int
  sf_label :: pystr
  sf_type :: pystr
  sf_required :: bool

text \<open>
  The body of the loop over the matches: \<open>None\<close> is the \<open>continue\<close> of the \<open>except\<close>
  clause, \<open>Some\<close> the dictionary appended to \<open>fields\<close>. \<^verbatim>\<open>re.sub(r'\D', '', g1)\<close> keeps the
  characters of class \<^verbatim>\<open>\d\<close>.
\<close>

definition field_of_match :: "platform \<Rightarrow> pystr \<times> pystr \<Rightarrow> static_field option" where
  "field_of_match U m =
     (case m of (field_number_str, g2) \<Rightarrow>
        (let label = map (\<lambda>c. if c = 10 then 32 else c) (strip g2) in
         case py_int U (filter (uc_re_digit U) field_number_str) of
           Inl e \<Rightarrow> None
         | Inr field_number \<Rightarrow>
             Some \<lparr>sf_field_number = field_number, sf_label = label,
                   sf_type = ascii ''text_input'', sf_required = True\<rparr>))"

definition extract_static_form_fields :: "platform \<Rightarrow> pystr \<Rightarrow> static_field list" where
  "extract_static_form_fields U full_text =
     List.map_filter (field_of_match U) (find_fields U True full_text)"

section \<open>Tables\<close>

text \<open>
  The table-extraction collaborator: opening the file gives the pages or raises, and
  \<open>page.extract_tables()\<close> gives the raw tables of a page (rows of cells, a cell a string
  or \<open>None\<close>) or raises.
\<close>

type_synonym raw_table = "pystr option list list"

type_synonym table_source = "py_error + (py_error + raw_table list) list"

record table =
  tbl_page :: int
  tbl_data :: "pystr list list"

text \<open>
  The body of the loop over the tables of a page; \<open>None\<close> stands for \<open>continue\<close> (and for
  the \<open>if final_table\<close> that appends nothing).
\<close>

definition clean_table :: "nat \<Rightarrow> raw_table \<Rightarrow> table option" where
  "clean_table i table_data =
     (if length table_data \<le> 1 \<and> list_all (\<lambda>row. length row \<le> 1) table_data then None
      else
        (let cleaned_rows =
               map (map (\<lambda>item. case item of None \<Rightarrow> [] | Some t \<Rightarrow> strip t)) table_data;
             non_empty_rows = filter (list_ex (\<lambda>cell. cell \<noteq> [])) cleaned_rows
         in
         if non_empty_rows = [] then None
         else
           (let max_cols = fold max (map length non_empty_rows) 0;
                padded_rows =
                  map (\<lambda>row. row @ replicate (max_cols - length row) []) non_empty_rows;
                non_empty_col_indices =
                  filter (\<lambda>idx. list_ex (\<lambda>row. row ! idx \<noteq> []) padded_rows) [0..<max_cols];
                final_table =
                  map (\<lambda>row. map snd (filter (\<lambda>(idx, cell). idx \<in> set non_empty_col_indices)
                                          (enumerate 0 row)))
                    padded_rows
            in
            if final_table = [] then None
            else Some \<lparr>tbl_page = int i + 1, tbl_data = final_table\<rparr>)))"

text \<open>
  The loop over the pages inside the \<open>try\<close>: an exception leaves the loop, the \<open>except\<close>
  clause prints a message, and the function returns \<open>tables\<close> as it stands.
\<close>

fun tables_of_pages :: "nat \<Rightarrow> (py_error + raw_table list) list \<Rightarrow> table list \<Rightarrow> table list"
where
  "tables_of_pages i [] tables = tables"
| "tables_of_pages i (Inl e # pages) tables = tables"
| "tables_of_pages i (Inr page_tables # pages) tables =
     tables_of_pages (i + 1) pages (tables @ List.map_filter (clean_table i) page_tables)"

definition extract_tables_with_pdfplumber :: "table_source \<Rightarrow> table list" where
  "extract_tables_with_pdfplumber pdf =
     (case pdf of Inl e \<Rightarrow> [] | Inr pages \<Rightarrow> tables_of_pages 0 pages [])"

section \<open>One document\<close>

record ('b, 'v) output_data =
  out_title :: pystr
  out_outline :: "outline_entry list"
  out_content_sections :: "'b content_section list"
  out_full_text :: pystr
  out_tables :: "table list"
  out_form_fields :: "'v form_field list"
  out_static_form_fields :: "static_field list"

text \<open>
  \<open>process_single_pdf\<close> on an opened document; \<open>pdf_stem\<close> is \<open>pdf_path.stem\<close>. \<open>Inr\<close> is the
  dictionary written as JSON; \<open>Inl\<close> is an exception caught at the document boundary,
  after which nothing is written.
\<close>

definition resolve_title :: "pystr \<Rightarrow> outline_entry list \<Rightarrow> pystr \<Rightarrow> pystr" where
  "resolve_title metadata_title outline pdf_stem =
     (let title =
            (if metadata_title = [] \<and> outline \<noteq> [] then
               (case sort_key (\<lambda>x. (ol_level x, ol_page x)) outline of
                  [] \<Rightarrow> []
                | x # _ \<Rightarrow> ol_text x)
             else metadata_title)
      in if title \<noteq> [] then title else pdf_stem)"

definition process_single_pdf ::
  "platform \<Rightarrow> ('b, 'v) document \<Rightarrow> table_source \<Rightarrow> pystr \<Rightarrow> py_error + ('b, 'v) output_data"
where
  "process_single_pdf U doc pdf pdf_stem =
     (let title = get_document_title doc;
          form_fields = extract_form_fields doc
      in
      case extract_content_and_outline U doc of
        Inl e \<Rightarrow> Inl e
      | Inr (content_sections, outline, full_text, list_recs) \<Rightarrow>
          (let static_form_fields = extract_static_form_fields U full_text;
               tables = extract_tables_with_pdfplumber pdf
           in
           Inr \<lparr>out_title = resolve_title title outline pdf_stem,
                out_outline = outline, out_content_sections = content_sections,
                out_full_text = full_text, out_tables = tables,
                out_form_fields = form_fields,
                out_static_form_fields = static_form_fields\<rparr>))"

section \<open>A platform and a document to compute with\<close>

text \<open>
  The tables restricted to ASCII, with SUPERSCRIPT TWO (U+00B2, category No) as the one
  numeric character that is no decimal digit, and CPython's default limit of 4300 digits.
  On ASCII text every version of the libraries agrees with it.
\<close>

definition ascii_lower :: "codepoint \<Rightarrow> codepoint" where
  "ascii_lower c = (if 65 \<le> c \<and> c \<le> 90 then c + 32 else c)"

definition ascii_digit :: "codepoint \<Rightarrow> bool" where
  "ascii_digit c \<longleftrightarrow> 48 \<le> c \<and> c \<le> 57"

definition ascii_word :: "codepoint \<Rightarrow> bool" where
  "ascii_word c \<longleftrightarrow>
     ascii_digit c \<or> (65 \<le> c \<and> c \<le> 90) \<or> c = 95 \<or> (97 \<le> c \<and> c \<le> 122)"

definition sample_platform :: platform where
  "sample_platform =
     \<lparr>uc_lower = map ascii_lower,
      uc_re_digit = ascii_digit,
      uc_re_numeric = (\<lambda>c. ascii_digit c \<or> c = 178),
      uc_re_word = ascii_word,
      uc_re_caseless = (\<lambda>p c. ascii_lower p = ascii_lower c),
      uc_int_digit = (\<lambda>c. if ascii_digit c then Some (c - 48) else None),
      int_max_str_digits = Some 4300\<rparr>"


text \<open>
  A two-page document: a title line, an image block, body text, a block of three lines of
  which two are bullets, headings of two sizes (one size in two emphases), a heading by
  emphasis alone, and a line of leader dots.
\<close>

definition text_span :: "string \<Rightarrow> int \<Rightarrow> int \<Rightarrow> span" where
  "text_span s sz fl = \<lparr>span_text = ascii s, span_size = sz, span_flags = fl\<rparr>"

definition text_block :: "span list list \<Rightarrow> unit block" where
  "text_block ls = \<lparr>block_type = 0, block_lines = ls, block_bbox = ()\<rparr>"

definition bullet_span :: span where
  "bullet_span =
     \<lparr>span_text = [8226, 32] @ ascii ''Buy milk'' @ [10, 45, 32] @ ascii ''Eggs'' @ [10] @
                   ascii ''and bread'',
      span_size = 10, span_flags = 0\<rparr>"

definition sample_page1 :: "(unit, unit) page" where
  "sample_page1 =
     \<lparr>page_text = ascii ''Groceries'' @ [10] @ ascii ''3. Enter your name'' @ [10],
      page_blocks =
        [text_block [[text_span ''Groceries'' 18 0]],
         \<lparr>block_type = 1, block_lines = [], block_bbox = ()\<rparr>,
         text_block [[text_span ''We shop on Monday and'' 10 0], [text_span ''on Friday.'' 10 4]],
         text_block [[bullet_span]],
         text_block [[text_span ''Notes'' 12 1]]],
      page_widgets =
        [\<lparr>field_name = ascii ''name'', field_type_string = ascii ''Text'', field_value = ()\<rparr>]\<rparr>"

definition sample_page2 :: "(unit, unit) page" where
  "sample_page2 =
     \<lparr>page_text = ascii ''Aside'' @ [10],
      page_blocks =
        [text_block [[text_span ''Aside'' 12 0]],
         text_block [[text_span ''Prices'' 10 17]],
         text_block [[text_span ''.....'' 10 0]],
         text_block [[text_span ''Milk went up again this week.'' 10 0]]],
      page_widgets = []\<rparr>"

definition sample_doc :: "(unit, unit) document" where
  "sample_doc = \<lparr>doc_title = None, doc_pages = [sample_page1, sample_page2], doc_toc = []\<rparr>"

text \<open>What the scan of \<open>sample_doc\<close> leaves in \<open>styles\<close>, \<open>all_blocks\<close> and \<open>full_text\<close>.\<close>

definition sample_styles :: counter where
  "sample_styles = [((18, 0), 9), ((10, 0), 93), ((12, 1), 5), ((12, 0), 5), ((10, 1), 6)]"

definition sample_blocks :: "unit tblock list" where
  "sample_blocks =
     [\<lparr>tb_style = (18, 0), tb_text = ascii ''Groceries'', tb_page = 1, tb_bbox = ()\<rparr>,
      \<lparr>tb_style = (10, 0), tb_text = ascii ''We shop on Monday and on Friday.'',
        tb_page = 1, tb_bbox = ()\<rparr>,
      \<lparr>tb_style = (10, 0), tb_text = span_text bullet_span, tb_page = 1, tb_bbox = ()\<rparr>,
      \<lparr>tb_style = (12, 1), tb_text = ascii ''Notes'', tb_page = 1, tb_bbox = ()\<rparr>,
      \<lparr>tb_style = (12, 0), tb_text = ascii ''Aside'', tb_page = 2, tb_bbox = ()\<rparr>,
      \<lparr>tb_style = (10, 1), tb_text = ascii ''Prices'', tb_page = 2, tb_bbox = ()\<rparr>,
      \<lparr>tb_style = (10, 0), tb_text = ascii ''.....'', tb_page = 2, tb_bbox = ()\<rparr>,
      \<lparr>tb_style = (10, 0), tb_text = ascii ''Milk went up again this week.'',
        tb_page = 2, tb_bbox = ()\<rparr>]"

definition sample_full_text :: pystr where
  "sample_full_text =
     ascii ''Groceries'' @ [10] @ ascii ''3. Enter your name'' @ [10, 10] @ ascii ''Aside'' @
     [10, 10]"

section \<open>Notions used in the statements\<close>

text \<open>
  The elements of a list in the order of their first occurrence, and the number of
  characters of the blocks of one style: what the histogram is meant to hold.
\<close>

definition first_occurrences :: "'a list \<Rightarrow> 'a list" where
  "first_occurrences xs = rev (remdups (rev xs))"

definition char_weight :: "style \<Rightarrow> 'b tblock list \<Rightarrow> nat" where
  "char_weight k blocks =
     sum_list (map (\<lambda>b. length (tb_text b)) (filter (\<lambda>b. tb_style b = k) blocks))"

text \<open>The histogram and the block list in step: the invariant of the scan.\<close>

definition in_step :: "counter \<Rightarrow> 'b tblock list \<Rightarrow> bool" where
  "in_step styles blocks \<longleftrightarrow>
     map fst styles = first_occurrences (map tb_style blocks) \<and>
     (\<forall>(k, w) \<in> set styles. w = char_weight k blocks)"

text \<open>A page on which two styles tie for the greatest weight, six characters each.\<close>

definition tie_doc :: "(unit, unit) document" where
  "tie_doc =
     \<lparr>doc_title = None,
      doc_pages =
        [\<lparr>page_text = [],
          page_blocks =
            [text_block [[text_span ''abcd'' 10 0]],
             text_block [[text_span ''Title'' 12 0]],
             text_block [[text_span ''ef'' 10 0]],
             text_block [[text_span ''X'' 12 0]]],
          page_widgets = []\<rparr>],
      doc_toc = []\<rparr>"

definition tie_blocks :: "unit tblock list" where
  "tie_blocks =
     [\<lparr>tb_style = (10, 0), tb_text = ascii ''abcd'', tb_page = 1, tb_bbox = ()\<rparr>,
      \<lparr>tb_style = (12, 0), tb_text = ascii ''Title'', tb_page = 1, tb_bbox = ()\<rparr>,
      \<lparr>tb_style = (10, 0), tb_text = ascii ''ef'', tb_page = 1, tb_bbox = ()\<rparr>,
      \<lparr>tb_style = (12, 0), tb_text = ascii ''X'', tb_page = 1, tb_bbox = ()\<rparr>]"

text \<open>
  The item texts of the lines of a block that match the bullet pattern, in order; the
  test for leader dots; and the two dictionaries the list branch appends for an item.
\<close>

definition bullet_items :: "pystr list \<Rightarrow> pystr list" where
  "bullet_items lines =
     List.map_filter (\<lambda>line. map_option strip (bullet_match (strip line))) lines"

definition leader_dots :: "'b tblock \<Rightarrow> bool" where
  "leader_dots block \<longleftrightarrow> list_all (\<lambda>c. c = 46) (strip (tb_text block))"

definition list_item_section :: "'b tblock \<Rightarrow> pystr \<Rightarrow> 'b content_section" where
  "list_item_section block item_text =
     \<lparr>sec_type = ascii ''list_item'', sec_content = item_text,
      sec_page = tb_page block, sec_bbox = tb_bbox block, sec_level = 0\<rparr>"

definition list_item_record :: "'b tblock \<Rightarrow> pystr \<Rightarrow> list_record" where
  "list_item_record block item_text = \<lparr>lr_page = tb_page block, lr_items = [item_text]\<rparr>"

definition block_list_records :: "'b tblock \<Rightarrow> list_record list" where
  "block_list_records block =
     (if leader_dots block then []
      else map (list_item_record block) (bullet_items (split_on 10 (tb_text block))))"

definition buy_milk_line :: pystr where
  "buy_milk_line = [8226, 32] @ ascii ''Buy milk''"

text \<open>Two blocks of \<open>sample_doc\<close> and the output of its extraction.\<close>

definition notes_block :: "unit tblock" where
  "notes_block = \<lparr>tb_style = (12, 1), tb_text = ascii ''Notes'', tb_page = 1, tb_bbox = ()\<rparr>"

definition bullet_block :: "unit tblock" where
  "bullet_block =
     \<lparr>tb_style = (10, 0), tb_text = span_text bullet_span, tb_page = 1, tb_bbox = ()\<rparr>"

definition heading_section :: "string \<Rightarrow> int \<Rightarrow> int \<Rightarrow> unit content_section" where
  "heading_section s pg lvl =
     \<lparr>sec_type = ascii ''heading'', sec_content = ascii s, sec_page = pg, sec_bbox = (),
      sec_level = lvl\<rparr>"

text \<open>A one-page document: a title line and the block with the two bullets.\<close>

definition groceries_block :: "unit tblock" where
  "groceries_block =
     \<lparr>tb_style = (18, 0), tb_text = ascii ''Groceries'', tb_page = 1, tb_bbox = ()\<rparr>"

definition small_text :: pystr where
  "small_text = ascii ''Groceries'' @ [10] @ ascii ''3. Enter your name'' @ [10]"

definition small_doc :: "(unit, unit) document" where
  "small_doc =
     \<lparr>doc_title = None,
      doc_pages =
        [\<lparr>page_text = small_text,
          page_blocks = [text_block [[text_span ''Groceries'' 18 0]], text_block [[bullet_span]]],
          page_widgets =
            [\<lparr>field_name = ascii ''name'', field_type_string = ascii ''Text'',
              field_value = ()\<rparr>]\<rparr>],
      doc_toc = []\<rparr>"

definition small_sections :: "unit content_section list" where
  "small_sections =
     [heading_section ''Groceries'' 1 1,
      list_item_section bullet_block (ascii ''Buy milk''),
      list_item_section bullet_block (ascii ''Eggs'')]"

definition small_outline :: "outline_entry list" where
  "small_outline = [\<lparr>ol_level = ascii ''H1'', ol_text = ascii ''Groceries'', ol_page = 1\<rparr>]"

definition small_lists :: "list_record list" where
  "small_lists =
     [list_item_record bullet_block (ascii ''Buy milk''),
      list_item_record bullet_block (ascii ''Eggs'')]"

text \<open>
  A table source whose first page gives one table and whose second page raises, and the
  table that the first page leaves in the output.
\<close>

definition failing_pdf :: table_source where
  "failing_pdf =
     Inr [Inr [[[Some (ascii ''Item''), Some (ascii ''Price'')],
                [Some (ascii ''Milk''), Some (ascii ''2'')]]],
          Inl ValueError]"

definition first_page_table :: table where
  "first_page_table =
     \<lparr>tbl_page = 1,
      tbl_data = [[ascii ''Item'', ascii ''Price''], [ascii ''Milk'', ascii ''2'']]\<rparr>"

text \<open>
  What one block contributes to \<open>content_sections\<close> and to the outline: what an iteration
  of the assembler's loop appends, read off an iteration that starts from empty lists.
\<close>

definition block_sections ::
  "platform \<Rightarrow> style list \<Rightarrow> int list \<Rightarrow> (int \<times> pystr) list \<Rightarrow> 'b tblock \<Rightarrow>
   'b content_section list"
where
  "block_sections U hstyles sizes lmap block =
     (case process_block U hstyles sizes lmap block ([], [], []) of
        Inl e \<Rightarrow> []
      | Inr (content_sections, outline, list_recs) \<Rightarrow> content_sections)"

definition block_outline ::
  "platform \<Rightarrow> style list \<Rightarrow> int list \<Rightarrow> (int \<times> pystr) list \<Rightarrow> 'b tblock \<Rightarrow>
   outline_entry list"
where
  "block_outline U hstyles sizes lmap block =
     (case process_block U hstyles sizes lmap block ([], [], []) of
        Inl e \<Rightarrow> []
      | Inr (content_sections, outline, list_recs) \<Rightarrow> outline)"




text \<open>
  A text of two numbered lines: the numeral of the first is SUPERSCRIPT TWO alone, the
  numeral of the second the digit 2 followed by SUPERSCRIPT TWO.
\<close>

definition superscript_text :: pystr where
  "superscript_text = [178, 46, 32, 65, 10, 50, 178, 41, 32, 66]"





section \<open>The scan\<close>

lemma and_one_01: "(x::int) AND 1 = 0 \<or> x AND 1 = 1"
  by (simp add: and_one_eq) presburger

lemma counter_add_keys:
  "map fst (counter_add k n c) = (if k \<in> set (map fst c) then map fst c else map fst c @ [k])"
proof (induction c)
  case Nil
  show ?case by simp
next
  case (Cons x c)
  obtain k' v where x: "x = (k', v)" by (cases x)
  show ?case using Cons by (simp add: x)
qed

lemma counter_add_key_set: "fst ` set (counter_add k n c) = insert k (fst ` set c)"
proof -
  have "set (map fst (counter_add k n c)) = insert k (set (map fst c))"
    unfolding counter_add_keys by auto
  then show ?thesis by simp
qed

lemma counter_add_flag:
  "\<forall>s \<in> fst ` set c. snd s = 0 \<or> snd s = 1 \<Longrightarrow> snd k = 0 \<or> snd k = 1 \<Longrightarrow>
   \<forall>s \<in> fst ` set (counter_add k n c). snd s = 0 \<or> snd s = 1"
  unfolding counter_add_key_set by blast

lemma style_key_flag: "snd (style_key_of sp) = 0 \<or> snd (style_key_of sp) = 1"
  using and_one_01 by (simp add: style_key_of_def)

text \<open>A step of the inner loop that appends a block, written out.\<close>

lemma scan_blocks_step:
  assumes "block_type b = 0" and "block_text_of b \<noteq> []" and "first_span b = Inr sp"
  shows "scan_blocks pn (b # bs) (styles, blocks) =
         scan_blocks pn bs
           (counter_add (style_key_of sp) (length (block_text_of b)) styles,
            blocks @ [\<lparr>tb_style = style_key_of sp, tb_text = block_text_of b,
                        tb_page = int pn + 1, tb_bbox = block_bbox b\<rparr>])"
  using assms by (simp add: Let_def)

lemma scan_blocks_skip:
  assumes "block_type b \<noteq> 0 \<or> block_text_of b = []"
  shows "scan_blocks pn (b # bs) (styles, blocks) = scan_blocks pn bs (styles, blocks)"
  using assms by (auto simp: Let_def)

lemma scan_blocks_cases:
  assumes "scan_blocks pn (b # bs) (styles, blocks) = Inr r"
  obtains "block_type b \<noteq> 0 \<or> block_text_of b = []"
  | sp where "block_type b = 0" "block_text_of b \<noteq> []" "first_span b = Inr sp"
proof (cases "block_type b = 0 \<and> block_text_of b \<noteq> []")
  case False
  then show ?thesis using that(1) by blast
next
  case True
  with assms obtain sp where "first_span b = Inr sp"
    by (auto simp: Let_def split: sum.splits)
  with True show ?thesis using that(2) by blast
qed

lemma scan_blocks_flag:
  "scan_blocks pn bs (styles, blocks) = Inr (styles', blocks') \<Longrightarrow>
   \<forall>s \<in> fst ` set styles. snd s = 0 \<or> snd s = 1 \<Longrightarrow>
   \<forall>s \<in> fst ` set styles'. snd s = 0 \<or> snd s = 1"
proof (induction bs arbitrary: styles blocks)
  case Nil
  then show ?case by simp
next
  case (Cons b bs)
  from Cons.prems(1) show ?case
  proof (cases rule: scan_blocks_cases)
    case 1
    from Cons.prems(1) have "scan_blocks pn bs (styles, blocks) = Inr (styles', blocks')"
      unfolding scan_blocks_skip [OF 1] .
    then show ?thesis using Cons.IH Cons.prems(2) by blast
  next
    case (2 sp)
    from Cons.prems(1) have
      "scan_blocks pn bs (counter_add (style_key_of sp) (length (block_text_of b)) styles,
         blocks @ [\<lparr>tb_style = style_key_of sp, tb_text = block_text_of b,
                     tb_page = int pn + 1, tb_bbox = block_bbox b\<rparr>]) = Inr (styles', blocks')"
      unfolding scan_blocks_step [OF 2] .
    then show ?thesis
      using Cons.IH counter_add_flag [OF Cons.prems(2) style_key_flag] by blast
  qed
qed

lemma scan_pages_cases:
  assumes "scan_pages pn (p # ps) (styles, blocks, ft) = Inr r"
  obtains s1 b1 where "scan_blocks pn (page_blocks p) (styles, blocks) = Inr (s1, b1)"
    and "scan_pages (pn + 1) ps (s1, b1, ft @ page_text p @ [10]) = Inr r"
  using assms by (auto split: sum.splits)

lemma scan_pages_flag:
  "scan_pages pn ps (styles, blocks, ft) = Inr (styles', blocks', ft') \<Longrightarrow>
   \<forall>s \<in> fst ` set styles. snd s = 0 \<or> snd s = 1 \<Longrightarrow>
   \<forall>s \<in> fst ` set styles'. snd s = 0 \<or> snd s = 1"
proof (induction ps arbitrary: pn styles blocks ft)
  case Nil
  then show ?case by simp
next
  case (Cons p ps)
  from Cons.prems(1) obtain s1 b1 where
    sb: "scan_blocks pn (page_blocks p) (styles, blocks) = Inr (s1, b1)"
    and rest: "scan_pages (pn + 1) ps (s1, b1, ft @ page_text p @ [10]) = Inr (styles', blocks', ft')"
    by (rule scan_pages_cases)
  from scan_blocks_flag [OF sb Cons.prems(2)] Cons.IH [OF rest] show ?case by blast
qed

lemma max_first_mem: "max_first best xs \<in> set (best # xs)"
  by (induction xs arbitrary: best) (auto split: if_splits)

lemma sample_scan:
  "scan_pages 0 (doc_pages sample_doc) ([], [], []) =
   Inr (sample_styles, sample_blocks, sample_full_text)"
  by (simp add: sample_doc_def sample_page1_def sample_page2_def text_block_def text_span_def
      bullet_span_def block_text_of_def first_span_def style_key_of_def
      sample_styles_def sample_blocks_def sample_full_text_def
      strip_def ascii_def py_isspace_def Let_def)

lemma sample_body: "fst (max_first ((18, 0), 9) (tl sample_styles)) = (10, 0)"
  by (simp add: sample_styles_def)

section \<open>Heading styles\<close>

text \<open>
  C1. After the scan of a document has left a non-empty histogram, a key of the histogram
  is a heading style iff its font size is greater than the body style's, or equal to it
  with its own emphasis flag set and the body style's clear (the flags are \<open>flags & 1\<close>,
  so 0 or 1). Heading styles are keys of the histogram, the body style is none of them,
  and no heading style has a font size below the body style's.
\<close>

theorem heading_style_iff:
  assumes scan: "scan_pages 0 (doc_pages doc) ([], [], []) = Inr (styles, all_blocks, full_text)"
    and ne: "styles = first # others"
    and body: "body_style = fst (max_first first others)"
  shows "(\<forall>s \<in> fst ` set styles.
            s \<in> set (heading_styles body_style styles) \<longleftrightarrow>
              fst body_style < fst s \<or>
              (fst s = fst body_style \<and> snd s \<noteq> 0 \<and> snd body_style = 0)) \<and>
         set (heading_styles body_style styles) \<subseteq> fst ` set styles \<and>
         body_style \<notin> set (heading_styles body_style styles) \<and>
         (\<forall>s \<in> set (heading_styles body_style styles). fst body_style \<le> fst s)"
proof -
  have flags: "\<forall>s \<in> fst ` set styles. snd s = 0 \<or> snd s = 1"
    using scan_pages_flag [OF scan] by simp
  have "body_style \<in> fst ` set styles"
    unfolding body ne using max_first_mem [of first others] by (metis imageI)
  with flags have b01: "snd body_style = 0 \<or> snd body_style = 1" by blast
  have "\<And>s. s \<in> fst ` set styles \<Longrightarrow>
      is_heading_style body_style s \<longleftrightarrow>
        fst body_style < fst s \<or> (fst s = fst body_style \<and> snd s \<noteq> 0 \<and> snd body_style = 0)"
    using flags b01 unfolding is_heading_style_def by force
  then show ?thesis
    by (auto simp: heading_styles_def is_heading_style_def)
qed

theorem heading_style_iff_witness:
  "scan_pages 0 (doc_pages sample_doc) ([], [], []) =
     Inr (sample_styles, sample_blocks, sample_full_text) \<and>
   sample_styles = ((18, 0), 9) # tl sample_styles \<and>
   (10, 0) = fst (max_first ((18, 0), 9) (tl sample_styles)) \<and>
   (10, 1) \<in> set (heading_styles (10, 0) sample_styles) \<and>
   (12, 0) \<in> set (heading_styles (10, 0) sample_styles) \<and>
   (10, 0) \<notin> set (heading_styles (10, 0) sample_styles)"
proof -
  have ne: "sample_styles = ((18, 0), 9) # tl sample_styles"
    by (simp add: sample_styles_def)
  have keys: "(10, 1) \<in> fst ` set sample_styles" "(12, 0) \<in> fst ` set sample_styles"
    by (simp_all add: sample_styles_def)
  from heading_style_iff [OF sample_scan ne sample_body [symmetric]] keys
  have "(10, 1) \<in> set (heading_styles (10, 0) sample_styles)"
    and "(12, 0) \<in> set (heading_styles (10, 0) sample_styles)"
    and "(10, 0) \<notin> set (heading_styles (10, 0) sample_styles)"
    by auto
  with sample_scan ne sample_body show ?thesis by simp
qed

section \<open>The level map\<close>

lemma dict_set_fresh: "k \<notin> fst ` set m \<Longrightarrow> dict_set k v m = m @ [(k, v)]"
  by (induction m) auto

lemma level_map_fold:
  "distinct xs \<Longrightarrow> set xs \<inter> fst ` set m = {} \<Longrightarrow>
   fold (\<lambda>(i, size) m. dict_set size (level_label (int i + 1)) m) (enumerate n xs) m =
   m @ map (\<lambda>(i, size). (size, level_label (int i + 1))) (enumerate n xs)"
proof (induction xs arbitrary: n m)
  case Nil
  show ?case by simp
next
  case (Cons x xs)
  from Cons.prems have fresh: "x \<notin> fst ` set m" by auto
  have disj: "set xs \<inter> fst ` set (m @ [(x, level_label (int n + 1))]) = {}"
    using Cons.prems by auto
  from Cons.prems have d: "distinct xs" by simp
  show ?case
    using Cons.IH [OF d disj, of "Suc n"] by (simp add: dict_set_fresh [OF fresh])
qed

lemma level_map_eq:
  "distinct sizes \<Longrightarrow>
   level_map sizes = map (\<lambda>(i, size). (size, level_label (int i + 1))) (enumerate 0 sizes)"
  unfolding level_map_def using level_map_fold [of sizes "[]" 0] by simp

lemma map_fst_swap_label: "map fst (map (\<lambda>(i, size). (size, f i)) e) = map snd e"
  by (induction e) auto

lemma map_snd_swap_label: "map snd (map (\<lambda>(i, size). (size, f i)) e) = map f (map fst e)"
  by (induction e) auto

lemma level_map_keys: "distinct sizes \<Longrightarrow> map fst (level_map sizes) = sizes"
  by (simp only: level_map_eq map_fst_swap_label map_snd_enumerate)

lemma level_map_labels:
  "distinct sizes \<Longrightarrow>
   map snd (level_map sizes) = map (\<lambda>i. level_label (int i + 1)) [0..<length sizes]"
  by (simp only: level_map_eq map_snd_swap_label map_fst_enumerate add_0)

lemma level_map_zip:
  assumes "distinct sizes"
  shows "level_map sizes = zip sizes (map (\<lambda>i. level_label (int i + 1)) [0..<length sizes])"
proof -
  have "level_map sizes = zip (map fst (level_map sizes)) (map snd (level_map sizes))"
    by (simp only: zip_map_fst_snd)
  then show ?thesis
    by (simp only: level_map_keys [OF assms] level_map_labels [OF assms])
qed

lemma level_map_lookup:
  assumes "distinct sizes" and "i < length sizes"
  shows "map_of (level_map sizes) (sizes ! i) = Some (level_label (int i + 1))"
proof -
  have "map_of (zip sizes (map (\<lambda>i. level_label (int i + 1)) [0..<length sizes])) (sizes ! i) =
        Some (map (\<lambda>i. level_label (int i + 1)) [0..<length sizes] ! i)"
    using assms by (intro map_of_zip_nth) simp_all
  then show ?thesis
    using assms(2) by (simp add: level_map_zip [OF assms(1)])
qed

lemma sorted_heading_sizes_distinct: "distinct (sorted_heading_sizes hs)"
  by (simp add: sorted_heading_sizes_def)

lemma sorted_heading_sizes_set: "set (sorted_heading_sizes hs) = fst ` set hs"
  by (simp add: sorted_heading_sizes_def)

lemma sorted_heading_sizes_desc: "sorted_wrt (\<lambda>a b. a > b) (sorted_heading_sizes hs)"
proof -
  have "sorted_wrt (<) (sort (remdups (map fst hs)))"
    by (simp add: strict_sorted_iff)
  then show ?thesis
    unfolding sorted_heading_sizes_def by (simp add: sorted_wrt_rev)
qed

lemma sorted_heading_sizes_length: "length (sorted_heading_sizes hs) = card (fst ` set hs)"
  using distinct_card [OF sorted_heading_sizes_distinct, of hs]
  by (simp add: sorted_heading_sizes_set)

lemma str_of_nat_nonempty: "str_of_nat n \<noteq> []"
  by (subst str_of_nat.simps) simp

lemma str_of_nat_inj: "str_of_nat n = str_of_nat m \<Longrightarrow> n = m"
proof (induction n arbitrary: m rule: str_of_nat.induct)
  case (1 n)
  show ?case
  proof (cases "n < 10")
    case True
    then have n: "str_of_nat n = [48 + n]" by (subst str_of_nat.simps) simp
    show ?thesis
    proof (cases "m < 10")
      case True
      then have "str_of_nat m = [48 + m]" by (subst str_of_nat.simps) simp
      with n "1.prems" show ?thesis by simp
    next
      case False
      then have "str_of_nat m = str_of_nat (m div 10) @ [48 + m mod 10]"
        by (subst str_of_nat.simps) simp
      with n "1.prems" str_of_nat_nonempty [of "m div 10"] show ?thesis
        by (metis append_is_Nil_conv butlast.simps(2) butlast_snoc)
    qed
  next
    case False
    then have n: "str_of_nat n = str_of_nat (n div 10) @ [48 + n mod 10]"
      by (subst str_of_nat.simps) simp
    show ?thesis
    proof (cases "m < 10")
      case True
      then have "str_of_nat m = [48 + m]" by (subst str_of_nat.simps) simp
      with n "1.prems" str_of_nat_nonempty [of "n div 10"] show ?thesis
        by (metis append_is_Nil_conv butlast.simps(2) butlast_snoc)
    next
      case False
      then have "str_of_nat m = str_of_nat (m div 10) @ [48 + m mod 10]"
        by (subst str_of_nat.simps) simp
      with n "1.prems" have "str_of_nat (n div 10) = str_of_nat (m div 10)"
        and "n mod 10 = m mod 10" by simp_all
      with "1.IH" [OF \<open>\<not> n < 10\<close>] have "n div 10 = m div 10" by blast
      with \<open>n mod 10 = m mod 10\<close> show ?thesis by (metis div_mult_mod_eq)
    qed
  qed
qed

lemma level_label_inj_nat: "level_label (int i + 1) = level_label (int j + 1) \<Longrightarrow> i = j"
proof -
  assume "level_label (int i + 1) = level_label (int j + 1)"
  then have "str_of_nat (nat (int i + 1)) = str_of_nat (nat (int j + 1))"
    by (simp add: level_label_def str_of_int_def)
  from str_of_nat_inj [OF this] show ?thesis by simp
qed

lemma level_label_1: "level_label 1 = ascii ''H1''"
  by (simp add: level_label_def str_of_int_def str_of_nat.simps ascii_def)




lemma sorted_desc_hd_Max:
  assumes "sorted_wrt (\<lambda>a b. a > b) (xs :: int list)" and "xs \<noteq> []"
  shows "hd xs = Max (set xs)"
proof -
  from assms obtain x rest where xs: "xs = x # rest" by (cases xs) auto
  with assms(1) have "\<forall>y \<in> set rest. y < x" by simp
  then have "\<forall>y \<in> set xs. y \<le> x" unfolding xs by auto
  then have "Max (set xs) = x" unfolding xs by (intro Max_eqI) auto
  then show ?thesis by (simp add: xs)
qed

text \<open>
  C3. The sizes of the heading styles are sorted in strictly descending order, without
  repetition, and the level map pairs them in that order with the labels \<open>H1\<close>, \<open>H2\<close>, ...,
  \<open>Hn\<close>: it has as many entries as there are distinct heading sizes, its labels are
  pairwise different, \<open>H1\<close> is the label of the largest size, and the label of a heading
  style is found by its size alone, so that styles of one size share it whatever their
  emphasis.
\<close>

theorem level_map_dense:
  assumes hs: "hstyles = heading_styles body_style styles"
    and sz: "sizes = sorted_heading_sizes hstyles"
    and lm: "lmap = level_map sizes"
  shows "sorted_wrt (\<lambda>a b. a > b) sizes \<and> set sizes = fst ` set hstyles \<and>
         lmap = zip sizes (map (\<lambda>i. level_label (int i + 1)) [0..<length sizes]) \<and>
         length lmap = card (fst ` set hstyles) \<and>
         distinct (map snd lmap) \<and>
         (sizes \<noteq> [] \<longrightarrow>
            hd sizes = Max (fst ` set hstyles) \<and> map_of lmap (hd sizes) = Some (ascii ''H1'')) \<and>
         (\<forall>s \<in> set hstyles. \<exists>i < length sizes.
            sizes ! i = fst s \<and> map_of lmap (fst s) = Some (level_label (int i + 1)))"
proof -
  have d: "distinct sizes" unfolding sz by (rule sorted_heading_sizes_distinct)
  have srt: "sorted_wrt (\<lambda>a b. a > b) sizes" unfolding sz by (rule sorted_heading_sizes_desc)
  have st: "set sizes = fst ` set hstyles" unfolding sz by (rule sorted_heading_sizes_set)
  have len: "length sizes = card (fst ` set hstyles)"
    unfolding sz by (rule sorted_heading_sizes_length)
  have z: "lmap = zip sizes (map (\<lambda>i. level_label (int i + 1)) [0..<length sizes])"
    unfolding lm by (rule level_map_zip [OF d])
  have ll: "length lmap = card (fst ` set hstyles)"
    using len by (simp add: z)
  have "inj_on (\<lambda>i. level_label (int i + 1)) (set [0..<length sizes])"
    by (rule inj_onI) (rule level_label_inj_nat)
  then have "distinct (map (\<lambda>i. level_label (int i + 1)) [0..<length sizes])"
    by (simp add: distinct_map)
  then have dl: "distinct (map snd lmap)"
    unfolding lm by (simp only: level_map_labels [OF d])
  have h1: "hd sizes = Max (fst ` set hstyles) \<and> map_of lmap (hd sizes) = Some (ascii ''H1'')"
    if ne: "sizes \<noteq> []"
  proof -
    from ne have 0: "0 < length sizes" by simp
    have "map_of lmap (sizes ! 0) = Some (level_label (int 0 + 1))"
      unfolding lm by (rule level_map_lookup [OF d 0])
    then have "map_of lmap (hd sizes) = Some (ascii ''H1'')"
      using ne by (simp add: hd_conv_nth level_label_1)
    with sorted_desc_hd_Max [OF srt ne] st show ?thesis by simp
  qed
  have each: "\<exists>i < length sizes.
            sizes ! i = fst s \<and> map_of lmap (fst s) = Some (level_label (int i + 1))"
    if "s \<in> set hstyles" for s
  proof -
    from that st have "fst s \<in> set sizes" by auto
    then obtain i where i: "i < length sizes" "sizes ! i = fst s"
      by (auto simp: in_set_conv_nth)
    from level_map_lookup [OF d i(1)] i show ?thesis unfolding lm by auto
  qed
  from srt st z ll dl h1 each show ?thesis by blast
qed

lemma sample_heading_styles:
  "heading_styles (10, 0) sample_styles = [(18, 0), (12, 1), (12, 0), (10, 1)]"
  by (simp add: heading_styles_def is_heading_style_def sample_styles_def)

lemma sample_sizes: "sorted_heading_sizes [(18, 0), (12, 1), (12, 0), (10, 1)] = [18, 12, 10]"
  by (simp add: sorted_heading_sizes_def)

theorem level_map_dense_witness:
  "heading_styles (10, 0) sample_styles = [(18, 0), (12, 1), (12, 0), (10, 1)] \<and>
   sorted_heading_sizes [(18, 0), (12, 1), (12, 0), (10, 1)] = [18, 12, 10] \<and>
   level_map [18, 12, 10] = [(18, ascii ''H1''), (12, ascii ''H2''), (10, ascii ''H3'')] \<and>
   map_of (level_map [18, 12, 10]) (fst ((12, 1) :: style)) = Some (ascii ''H2'') \<and>
   map_of (level_map [18, 12, 10]) (fst ((12, 0) :: style)) = Some (ascii ''H2'')"
proof -
  have "level_map [18, 12, 10] =
        zip [18, 12, 10] (map (\<lambda>i. level_label (int i + 1)) [0..<length [18, 12, 10 :: int]])"
    using level_map_dense [OF sample_heading_styles [symmetric] sample_sizes [symmetric] refl]
    by blast
  then have "level_map [18, 12, 10] = [(18, ascii ''H1''), (12, ascii ''H2''), (10, ascii ''H3'')]"
    by (simp add: upt_rec level_label_def str_of_int_def str_of_nat.simps ascii_def)
  with sample_heading_styles sample_sizes show ?thesis by simp
qed

section \<open>The histogram and the body style\<close>

lemma max_first_decomp:
  "(max_first best xs = best \<and> (\<forall>x \<in> set xs. snd x \<le> snd best)) \<or>
   (\<exists>ys zs. xs = ys @ max_first best xs # zs \<and> (\<forall>y \<in> set ys. snd y < snd (max_first best xs)) \<and>
      snd best < snd (max_first best xs) \<and> (\<forall>z \<in> set zs. snd z \<le> snd (max_first best xs)))"
proof (induction xs arbitrary: best)
  case Nil
  show ?case by simp
next
  case (Cons x xs)
  show ?case
  proof (cases "snd best < snd x")
    case True
    then have r: "max_first best (x # xs) = max_first x xs" by simp
    from Cons.IH [of x] show ?thesis
    proof
      assume "max_first x xs = x \<and> (\<forall>y \<in> set xs. snd y \<le> snd x)"
      then have "x # xs = [] @ max_first best (x # xs) # xs"
        and "\<forall>z \<in> set xs. snd z \<le> snd (max_first best (x # xs))"
        and "snd best < snd (max_first best (x # xs))"
        using True unfolding r by simp_all
      then show ?thesis by (metis empty_iff list.set(1))
    next
      assume "\<exists>ys zs. xs = ys @ max_first x xs # zs \<and>
        (\<forall>y \<in> set ys. snd y < snd (max_first x xs)) \<and>
        snd x < snd (max_first x xs) \<and> (\<forall>z \<in> set zs. snd z \<le> snd (max_first x xs))"
      then obtain ys zs where d: "xs = ys @ max_first x xs # zs"
        and ys: "\<forall>y \<in> set ys. snd y < snd (max_first x xs)"
        and x: "snd x < snd (max_first x xs)"
        and zs: "\<forall>z \<in> set zs. snd z \<le> snd (max_first x xs)"
        by blast
      have 1: "x # xs = (x # ys) @ max_first best (x # xs) # zs" using d unfolding r by simp
      have 2: "\<forall>y \<in> set (x # ys). snd y < snd (max_first best (x # xs))"
        using ys x unfolding r by simp
      have 3: "snd best < snd (max_first best (x # xs))" using True x unfolding r by simp
      have 4: "\<forall>z \<in> set zs. snd z \<le> snd (max_first best (x # xs))" using zs unfolding r by simp
      from 1 2 3 4 show ?thesis by blast
    qed
  next
    case False
    then have r: "max_first best (x # xs) = max_first best xs" by simp
    from Cons.IH [of best] show ?thesis
    proof
      assume "max_first best xs = best \<and> (\<forall>y \<in> set xs. snd y \<le> snd best)"
      with False show ?thesis unfolding r by simp
    next
      assume "\<exists>ys zs. xs = ys @ max_first best xs # zs \<and>
        (\<forall>y \<in> set ys. snd y < snd (max_first best xs)) \<and>
        snd best < snd (max_first best xs) \<and> (\<forall>z \<in> set zs. snd z \<le> snd (max_first best xs))"
      then obtain ys zs where d: "xs = ys @ max_first best xs # zs"
        and ys: "\<forall>y \<in> set ys. snd y < snd (max_first best xs)"
        and b: "snd best < snd (max_first best xs)"
        and zs: "\<forall>z \<in> set zs. snd z \<le> snd (max_first best xs)"
        by blast
      have 1: "x # xs = (x # ys) @ max_first best (x # xs) # zs" using d unfolding r by simp
      have 2: "\<forall>y \<in> set (x # ys). snd y < snd (max_first best (x # xs))"
        using ys b False unfolding r by simp
      have 3: "snd best < snd (max_first best (x # xs))" using b unfolding r by simp
      have 4: "\<forall>z \<in> set zs. snd z \<le> snd (max_first best (x # xs))" using zs unfolding r by simp
      from 1 2 3 4 show ?thesis by blast
    qed
  qed
qed

lemma max_first_first_maximal:
  "\<exists>pre post. best # xs = pre @ max_first best xs # post \<and>
     (\<forall>p \<in> set pre. snd p < snd (max_first best xs)) \<and>
     (\<forall>q \<in> set post. snd q \<le> snd (max_first best xs))"
proof -
  from max_first_decomp [of best xs] show ?thesis
  proof
    assume a: "max_first best xs = best \<and> (\<forall>x \<in> set xs. snd x \<le> snd best)"
    then have "best # xs = [] @ max_first best xs # xs" by simp
    moreover have "\<forall>p \<in> set []. snd p < snd (max_first best xs)" by simp
    moreover from a have "\<forall>q \<in> set xs. snd q \<le> snd (max_first best xs)" by simp
    ultimately show ?thesis by blast
  next
    assume "\<exists>ys zs. xs = ys @ max_first best xs # zs \<and>
        (\<forall>y \<in> set ys. snd y < snd (max_first best xs)) \<and>
        snd best < snd (max_first best xs) \<and> (\<forall>z \<in> set zs. snd z \<le> snd (max_first best xs))"
    then obtain ys zs where d: "xs = ys @ max_first best xs # zs"
      and ys: "\<forall>y \<in> set ys. snd y < snd (max_first best xs)"
      and b: "snd best < snd (max_first best xs)"
      and zs: "\<forall>z \<in> set zs. snd z \<le> snd (max_first best xs)"
      by blast
    have "best # xs = (best # ys) @ max_first best xs # zs" using d by simp
    moreover have "\<forall>p \<in> set (best # ys). snd p < snd (max_first best xs)" using ys b by simp
    ultimately show ?thesis using zs by blast
  qed
qed

lemma first_occurrences_snoc:
  "first_occurrences (xs @ [x]) =
   (if x \<in> set xs then first_occurrences xs else first_occurrences xs @ [x])"
  by (simp add: first_occurrences_def)

lemma set_first_occurrences: "set (first_occurrences xs) = set xs"
  by (simp add: first_occurrences_def)

lemma distinct_first_occurrences: "distinct (first_occurrences xs)"
  by (simp add: first_occurrences_def)

lemma char_weight_snoc:
  "char_weight k (blocks @ [b]) =
   char_weight k blocks + (if tb_style b = k then length (tb_text b) else 0)"
  by (simp add: char_weight_def)

lemma char_weight_absent: "k \<notin> tb_style ` set blocks \<Longrightarrow> char_weight k blocks = 0"
proof -
  assume "k \<notin> tb_style ` set blocks"
  then have "filter (\<lambda>b. tb_style b = k) blocks = []"
    by (auto simp: filter_empty_conv)
  then show ?thesis by (simp add: char_weight_def)
qed

lemma counter_add_entries:
  "distinct (map fst c) \<Longrightarrow>
   set (counter_add k n c) =
   (if k \<in> fst ` set c then {(k', v) \<in> set c. k' \<noteq> k} \<union> {(k, v + n) | v. (k, v) \<in> set c}
    else set c \<union> {(k, n)})"
proof (induction c)
  case Nil
  show ?case by simp
next
  case (Cons x c)
  obtain k' v where x: "x = (k', v)" by (cases x)
  from Cons.prems have d: "distinct (map fst c)" and fresh: "k' \<notin> fst ` set c"
    by (simp_all add: x)
  show ?case
  proof (cases "k' = k")
    case True
    with fresh have "\<And>w. (k, w) \<notin> set c" by (metis fst_conv imageI)
    with True show ?thesis by (auto simp: x)
  next
    case False
    with Cons.IH [OF d] show ?thesis by (auto simp: x)
  qed
qed


lemma in_step_append:
  assumes "in_step styles blocks" and "tb_style b = k" and "length (tb_text b) = n"
  shows "in_step (counter_add k n styles) (blocks @ [b])"
proof -
  from assms(1) have keys: "map fst styles = first_occurrences (map tb_style blocks)"
    and w: "\<forall>(k, w) \<in> set styles. w = char_weight k blocks"
    by (simp_all add: in_step_def)
  have d: "distinct (map fst styles)" unfolding keys by (rule distinct_first_occurrences)
  have ks: "set (map fst styles) = tb_style ` set blocks"
    unfolding keys by (simp add: set_first_occurrences)
  have 1: "map fst (counter_add k n styles) = first_occurrences (map tb_style (blocks @ [b]))"
    using ks by (simp add: counter_add_keys first_occurrences_snoc keys [symmetric] assms(2))
  have 2: "w' = char_weight k' (blocks @ [b])" if "(k', w') \<in> set (counter_add k n styles)"
    for k' w'
  proof (cases "k \<in> fst ` set styles")
    case True
    with that counter_add_entries [OF d, of k n]
    have "((k', w') \<in> set styles \<and> k' \<noteq> k) \<or> (k' = k \<and> (\<exists>v. w' = v + n \<and> (k, v) \<in> set styles))"
      by auto
    with w show ?thesis by (auto simp: char_weight_snoc assms(2,3))
  next
    case False
    with that counter_add_entries [OF d, of k n]
    have "(k', w') \<in> set styles \<or> (k' = k \<and> w' = n)" by auto
    then show ?thesis
    proof
      assume m: "(k', w') \<in> set styles"
      with False have "k' \<noteq> k" by (metis fst_conv imageI)
      with m w show ?thesis by (auto simp: char_weight_snoc assms(2))
    next
      assume e: "k' = k \<and> w' = n"
      from False ks have "k \<notin> tb_style ` set blocks" by simp
      from char_weight_absent [OF this] e show ?thesis
        by (simp add: char_weight_snoc assms(2,3))
    qed
  qed
  from 1 2 show ?thesis unfolding in_step_def by blast
qed

lemma scan_blocks_in_step:
  "scan_blocks pn bs (styles, blocks) = Inr (styles', blocks') \<Longrightarrow> in_step styles blocks \<Longrightarrow>
   in_step styles' blocks'"
proof (induction bs arbitrary: styles blocks)
  case Nil
  then show ?case by simp
next
  case (Cons b bs)
  from Cons.prems(1) show ?case
  proof (cases rule: scan_blocks_cases)
    case 1
    from Cons.prems(1) have "scan_blocks pn bs (styles, blocks) = Inr (styles', blocks')"
      unfolding scan_blocks_skip [OF 1] .
    then show ?thesis using Cons.IH Cons.prems(2) by blast
  next
    case (2 sp)
    from Cons.prems(1) have
      "scan_blocks pn bs (counter_add (style_key_of sp) (length (block_text_of b)) styles,
         blocks @ [\<lparr>tb_style = style_key_of sp, tb_text = block_text_of b,
                     tb_page = int pn + 1, tb_bbox = block_bbox b\<rparr>]) = Inr (styles', blocks')"
      unfolding scan_blocks_step [OF 2] .
    moreover have "in_step (counter_add (style_key_of sp) (length (block_text_of b)) styles)
         (blocks @ [\<lparr>tb_style = style_key_of sp, tb_text = block_text_of b,
                     tb_page = int pn + 1, tb_bbox = block_bbox b\<rparr>])"
      by (rule in_step_append [OF Cons.prems(2)]) simp_all
    ultimately show ?thesis using Cons.IH by blast
  qed
qed

lemma scan_pages_in_step:
  "scan_pages pn ps (styles, blocks, ft) = Inr (styles', blocks', ft') \<Longrightarrow> in_step styles blocks \<Longrightarrow>
   in_step styles' blocks'"
proof (induction ps arbitrary: pn styles blocks ft)
  case Nil
  then show ?case by simp
next
  case (Cons p ps)
  from Cons.prems(1) obtain s1 b1 where
    sb: "scan_blocks pn (page_blocks p) (styles, blocks) = Inr (s1, b1)"
    and rest: "scan_pages (pn + 1) ps (s1, b1, ft @ page_text p @ [10]) = Inr (styles', blocks', ft')"
    by (rule scan_pages_cases)
  from scan_blocks_in_step [OF sb Cons.prems(2)] Cons.IH [OF rest] show ?case by blast
qed

text \<open>
  C10. After the scan the keys of the histogram stand in the order in which their styles
  first occur in the block sequence (pages in order, blocks in order within a page), each
  with the number of characters of its blocks; and the entry that \<open>most_common(1)\<close> picks
  has a weight that every earlier entry is strictly below and no later entry exceeds. So
  among the styles of maximal weight the body style is the one encountered first, and the
  choice is a function of the block sequence.
\<close>

theorem body_style_first_maximal:
  assumes scan: "scan_pages 0 (doc_pages doc) ([], [], []) = Inr (styles, all_blocks, full_text)"
    and ne: "styles = first # others"
    and body: "body = max_first first others"
  shows "map fst styles = first_occurrences (map tb_style all_blocks) \<and>
         (\<forall>(k, w) \<in> set styles. w = char_weight k all_blocks) \<and>
         (\<exists>pre post. styles = pre @ body # post \<and>
            (\<forall>p \<in> set pre. snd p < snd body) \<and> (\<forall>q \<in> set post. snd q \<le> snd body))"
proof -
  have "in_step [] ([] :: 'a tblock list)"
    by (simp add: in_step_def first_occurrences_def)
  from scan_pages_in_step [OF scan this] have "in_step styles all_blocks" .
  then show ?thesis
    using max_first_first_maximal [of first others] unfolding in_step_def ne body by blast
qed

lemma tie_scan:
  "scan_pages 0 (doc_pages tie_doc) ([], [], []) =
   Inr ([((10, 0), 6), ((12, 0), 6)], tie_blocks, [10])"
  by (simp add: tie_doc_def tie_blocks_def text_block_def text_span_def
      block_text_of_def first_span_def style_key_of_def
      strip_def ascii_def py_isspace_def Let_def)

theorem body_style_first_maximal_witness:
  "scan_pages 0 (doc_pages tie_doc) ([], [], []) =
     Inr ([((10, 0), 6), ((12, 0), 6)], tie_blocks, [10]) \<and>
   max_first ((10, 0), 6) [((12, 0), 6)] = ((10, 0), 6) \<and>
   map fst [((10, 0), 6 :: nat), ((12, 0 :: int), 6)] =
     first_occurrences (map tb_style tie_blocks) \<and>
   char_weight (10, 0) tie_blocks = 6 \<and> char_weight (12, 0) tie_blocks = 6"
proof -
  have b: "((10, 0), 6) = max_first ((10, 0), 6) [((12, 0), 6)]" by simp
  from body_style_first_maximal [OF tie_scan refl b]
  have "map fst [((10, 0), 6 :: nat), ((12, 0 :: int), 6)] =
          first_occurrences (map tb_style tie_blocks)"
    and "\<forall>(k, w) \<in> set [((10, 0), 6 :: nat), ((12, 0 :: int), 6)]. w = char_weight k tie_blocks"
    by blast+
  with tie_scan b show ?thesis by simp
qed

section \<open>The assembler\<close>

lemma emit_list_items_eq:
  "emit_list_items block lines (cs, ls) =
   (cs @ map (list_item_section block) (bullet_items lines),
    ls @ map (list_item_record block) (bullet_items lines))"
proof (induction lines arbitrary: cs ls)
  case Nil
  show ?case by (simp add: bullet_items_def)
next
  case (Cons line lines)
  show ?case
  proof (cases "bullet_match (strip line)")
    case None
    then show ?thesis using Cons.IH by (simp add: bullet_items_def)
  next
    case (Some g2)
    then show ?thesis
      using Cons.IH
      by (simp add: bullet_items_def list_item_section_def list_item_record_def Let_def)
  qed
qed

lemma bullet_items_length:
  "length (bullet_items lines) =
   length (filter (\<lambda>line. bullet_match (strip line) \<noteq> None) lines)"
  by (induction lines) (auto simp: bullet_items_def split: option.splits)

lemma bullet_items_empty_iff:
  "bullet_items lines = [] \<longleftrightarrow>
   \<not> list_ex (\<lambda>m. m \<noteq> None) (map (\<lambda>line. bullet_match (strip line)) lines)"
  by (induction lines) (auto simp: bullet_items_def split: option.splits)

lemma bullet_items_mem:
  "line \<in> set lines \<Longrightarrow> bullet_match (strip line) = Some g2 \<Longrightarrow>
   strip g2 \<in> set (bullet_items lines)"
  by (induction lines) (auto simp: bullet_items_def split: option.splits)

text \<open>The three branches of one iteration, and the skipped block.\<close>

lemma process_block_dots:
  "leader_dots block \<Longrightarrow> process_block U hstyles sizes lmap block st = Inr st"
  by (simp add: process_block_def leader_dots_def split: prod.splits)

lemma process_block_list:
  assumes "\<not> leader_dots block" and "bullet_items (split_on 10 (tb_text block)) \<noteq> []"
  shows "process_block U hstyles sizes lmap block (cs, ol, ls) =
         Inr (cs @ map (list_item_section block) (bullet_items (split_on 10 (tb_text block))),
              ol,
              ls @ map (list_item_record block) (bullet_items (split_on 10 (tb_text block))))"
  using assms
  by (simp add: process_block_def leader_dots_def bullet_items_empty_iff Let_def
      emit_list_items_eq)

lemma process_block_heading:
  assumes "\<not> leader_dots block" and "bullet_items (split_on 10 (tb_text block)) = []"
    and "tb_style block \<in> set hstyles"
    and "index_of (fst (tb_style block)) sizes = Some i"
  shows "process_block U hstyles sizes lmap block (cs, ol, ls) =
         Inr (cs @ [\<lparr>sec_type = ascii ''heading'', sec_content = tb_text block,
                      sec_page = tb_page block, sec_bbox = tb_bbox block,
                      sec_level = int (length lmap) - int i\<rparr>],
              ol @ [\<lparr>ol_level = level_label (int (length lmap) - int i),
                      ol_text = tb_text block, ol_page = tb_page block\<rparr>],
              ls)"
  using assms
  by (simp add: process_block_def leader_dots_def bullet_items_empty_iff Let_def)

lemma process_block_other:
  assumes "\<not> leader_dots block" and "bullet_items (split_on 10 (tb_text block)) = []"
    and "tb_style block \<notin> set hstyles"
  shows "process_block U hstyles sizes lmap block (cs, ol, ls) =
         Inr (cs @ [\<lparr>sec_type = classify_content_block U (tb_text block),
                      sec_content = tb_text block, sec_page = tb_page block,
                      sec_bbox = tb_bbox block, sec_level = 0\<rparr>],
              ol, ls)"
  using assms
  by (simp add: process_block_def leader_dots_def bullet_items_empty_iff Let_def)

lemma index_of_nth:
  "distinct xs \<Longrightarrow> i < length xs \<Longrightarrow> index_of (xs ! i) xs = Some i"
proof (induction xs arbitrary: i)
  case Nil
  then show ?case by simp
next
  case (Cons x xs)
  show ?case
  proof (cases i)
    case 0
    then show ?thesis by simp
  next
    case (Suc j)
    with Cons.prems have "xs ! j \<noteq> x" "j < length xs" "distinct xs" by auto
    with Cons.IH [of j] Suc show ?thesis by simp
  qed
qed

lemma index_of_mem: "x \<in> set xs \<Longrightarrow> \<exists>i. index_of x xs = Some i \<and> i < length xs \<and> xs ! i = x"
proof (induction xs)
  case Nil
  then show ?case by simp
next
  case (Cons y ys)
  show ?case
  proof (cases "y = x")
    case True
    then show ?thesis by simp
  next
    case False
    with Cons obtain i where "index_of x ys = Some i" "i < length ys" "ys ! i = x" by auto
    with False show ?thesis by simp
  qed
qed

lemma in_set_drop_nth:
  "x \<in> set (drop n xs) \<longleftrightarrow> (\<exists>j. n \<le> j \<and> j < length xs \<and> xs ! j = x)"
proof
  assume "x \<in> set (drop n xs)"
  then obtain k where k: "k < length xs - n" "drop n xs ! k = x"
    by (auto simp: in_set_conv_nth)
  then have "n \<le> n + k" "n + k < length xs" "xs ! (n + k) = x" by auto
  then show "\<exists>j. n \<le> j \<and> j < length xs \<and> xs ! j = x" by blast
next
  assume "\<exists>j. n \<le> j \<and> j < length xs \<and> xs ! j = x"
  then obtain j where j: "n \<le> j" "j < length xs" "xs ! j = x" by blast
  then have "j - n < length (drop n xs)" "drop n xs ! (j - n) = x" by auto
  then show "x \<in> set (drop n xs)" by (metis nth_mem)
qed

lemma desc_le_set:
  assumes s: "sorted_wrt (\<lambda>a b. a > b) (xs :: int list)" and i: "i < length xs"
  shows "{z \<in> set xs. z \<le> xs ! i} = set (drop i xs)"
proof (rule set_eqI)
  fix z
  show "z \<in> {z \<in> set xs. z \<le> xs ! i} \<longleftrightarrow> z \<in> set (drop i xs)"
  proof
    assume "z \<in> {z \<in> set xs. z \<le> xs ! i}"
    then obtain j where j: "j < length xs" "xs ! j = z" and le: "z \<le> xs ! i"
      by (auto simp: in_set_conv_nth)
    have "\<not> j < i"
    proof
      assume "j < i"
      with s i have "xs ! j > xs ! i" unfolding sorted_wrt_iff_nth_less by blast
      with j le show False by simp
    qed
    then have "i \<le> j" by simp
    with j show "z \<in> set (drop i xs)" by (auto simp: in_set_drop_nth)
  next
    assume "z \<in> set (drop i xs)"
    then obtain j where j: "i \<le> j" "j < length xs" "xs ! j = z"
      by (auto simp: in_set_drop_nth)
    have "z \<le> xs ! i"
    proof (cases "i = j")
      case True
      with j show ?thesis by simp
    next
      case False
      with j have "i < j" by simp
      with s j(2) have "xs ! i > xs ! j" unfolding sorted_wrt_iff_nth_less by blast
      with j show ?thesis by simp
    qed
    moreover from j have "z \<in> set xs" by auto
    ultimately show "z \<in> {z \<in> set xs. z \<le> xs ! i}" by simp
  qed
qed

lemma desc_rank:
  assumes s: "sorted_wrt (\<lambda>a b. a > b) (xs :: int list)" and d: "distinct xs"
    and i: "i < length xs"
  shows "card {z \<in> set xs. z \<le> xs ! i} = length xs - i"
proof -
  have "card (set (drop i xs)) = length (drop i xs)"
    using d by (intro distinct_card) simp
  then show ?thesis by (simp add: desc_le_set [OF s i])
qed


lemma split_on_nonempty: "split_on sep s \<noteq> []"
  by (induction s) (auto split: list.splits)

lemma split_on_set: "l \<in> set (split_on sep s) \<Longrightarrow> set l \<subseteq> set s"
proof (induction s arbitrary: l)
  case Nil
  then show ?case by simp
next
  case (Cons c cs)
  show ?case
  proof (cases "c = sep")
    case True
    with Cons.prems have "l = [] \<or> l \<in> set (split_on sep cs)" by simp
    with Cons.IH show ?thesis by auto
  next
    case False
    obtain h t where ht: "split_on sep cs = h # t"
      using split_on_nonempty [of sep cs] by (cases "split_on sep cs") auto
    with False Cons.prems have "l = c # h \<or> l \<in> set t" by simp
    then show ?thesis
    proof
      assume "l = c # h"
      moreover have "set h \<subseteq> set cs" using Cons.IH [of h] ht by simp
      ultimately show ?thesis by auto
    next
      assume "l \<in> set t"
      then have "set l \<subseteq> set cs" using Cons.IH [of l] ht by simp
      then show ?thesis by auto
    qed
  qed
qed

lemma mem_dropWhile: "x \<in> set xs \<Longrightarrow> \<not> P x \<Longrightarrow> x \<in> set (dropWhile P xs)"
  by (induction xs) auto

lemma strip_keeps: "c \<in> set s \<Longrightarrow> \<not> py_isspace c \<Longrightarrow> c \<in> set (strip s)"
  unfolding strip_def by (simp add: mem_dropWhile)

lemma buy_milk_match: "bullet_match (strip buy_milk_line) = Some (ascii ''Buy milk'')"
  by (simp add: buy_milk_line_def bullet_match_def bullet_glyph_def strip_def py_isspace_def
      re_space_def re_dot_def ascii_def)

lemma buy_milk_item: "strip (ascii ''Buy milk'') = ascii ''Buy milk''"
  by (simp add: strip_def py_isspace_def ascii_def)

text \<open>
  One iteration on a block one of whose lines is \<open>buy_milk_line\<close>, whatever its style and
  whatever the heading styles are: the list branch is taken.
\<close>

lemma bullet_line_step:
  assumes line: "buy_milk_line \<in> set (split_on 10 (tb_text block))"
  shows "process_block U hstyles sizes lmap block (cs, ol, ls) =
           Inr (cs @ map (list_item_section block) (bullet_items (split_on 10 (tb_text block))),
                ol,
                ls @ map (list_item_record block) (bullet_items (split_on 10 (tb_text block)))) \<and>
         ascii ''Buy milk'' \<in> set (bullet_items (split_on 10 (tb_text block))) \<and>
         length (bullet_items (split_on 10 (tb_text block))) =
           length (filter (\<lambda>line. bullet_match (strip line) \<noteq> None)
                     (split_on 10 (tb_text block))) \<and>
         (\<forall>item. sec_type (list_item_section block item) = ascii ''list_item'' \<and>
                 sec_content (list_item_section block item) = item \<and>
                 sec_level (list_item_section block item) = 0)"
proof -
  have "66 \<in> set buy_milk_line" by (simp add: buy_milk_line_def ascii_def)
  with split_on_set [OF line] have "66 \<in> set (tb_text block)" by blast
  then have "66 \<in> set (strip (tb_text block))"
    by (rule strip_keeps) (simp add: py_isspace_def)
  then have nd: "\<not> leader_dots block"
    unfolding leader_dots_def list_all_iff by fastforce
  have item: "ascii ''Buy milk'' \<in> set (bullet_items (split_on 10 (tb_text block)))"
    using bullet_items_mem [OF line buy_milk_match] by (simp add: buy_milk_item)
  then have ne: "bullet_items (split_on 10 (tb_text block)) \<noteq> []" by auto
  show ?thesis
    using process_block_list [OF nd ne] item bullet_items_length
    by (simp add: list_item_section_def)
qed

lemma process_block_lists:
  assumes "process_block U hstyles sizes lmap block (cs, ol, ls) = Inr (cs', ol', ls')"
  shows "ls' = ls @ block_list_records block"
proof (cases "leader_dots block")
  case True
  with assms show ?thesis by (simp add: process_block_dots block_list_records_def)
next
  case nd: False
  show ?thesis
  proof (cases "bullet_items (split_on 10 (tb_text block)) = []")
    case False
    with assms nd show ?thesis
      by (simp add: process_block_list block_list_records_def)
  next
    case nb: True
    show ?thesis
    proof (cases "tb_style block \<in> set hstyles")
      case False
      with assms nd nb show ?thesis
        by (simp add: process_block_other block_list_records_def)
    next
      case h: True
      show ?thesis
      proof (cases "index_of (fst (tb_style block)) sizes")
        case None
        with assms nd nb h show ?thesis
          by (simp add: process_block_def leader_dots_def bullet_items_empty_iff Let_def)
      next
        case (Some i)
        with assms nd nb h show ?thesis
          by (simp add: process_block_heading block_list_records_def)
      qed
    qed
  qed
qed

lemma process_blocks_lists:
  "process_blocks U hstyles sizes lmap blocks (cs, ol, ls) = Inr (cs', ol', ls') \<Longrightarrow>
   ls' = ls @ concat (map block_list_records blocks)"
proof (induction blocks arbitrary: cs ol ls)
  case Nil
  then show ?case by simp
next
  case (Cons block blocks)
  from Cons.prems obtain cs1 ol1 ls1 where
    1: "process_block U hstyles sizes lmap block (cs, ol, ls) = Inr (cs1, ol1, ls1)"
    and 2: "process_blocks U hstyles sizes lmap blocks (cs1, ol1, ls1) = Inr (cs', ol', ls')"
    by (auto split: sum.splits)
  from process_block_lists [OF 1] Cons.IH [OF 2] show ?case by simp
qed

lemma block_list_records_singleton:
  "r \<in> set (block_list_records block) \<Longrightarrow> \<exists>item. lr_items r = [item]"
  by (auto simp: block_list_records_def list_item_record_def split: if_splits)

text \<open>
  C9. The \<open>lists\<close> a document returns are, block by block in the order of the block
  sequence, one record per line that matches the bullet pattern (none for a block of
  leader dots); the \<open>items\<close> of every record is a list of exactly one text, so a block with
  several matching lines gives as many records.
\<close>

theorem list_records_singleton:
  assumes ex: "extract_content_and_outline U doc = Inr (cs, ol, ft, ls)"
    and scan: "scan_pages 0 (doc_pages doc) ([], [], []) = Inr (styles, all_blocks, full_text)"
  shows "ls = concat (map block_list_records all_blocks) \<and>
         (\<forall>r \<in> set ls. \<exists>item. lr_items r = [item]) \<and>
         (\<forall>block \<in> set all_blocks. \<not> leader_dots block \<longrightarrow>
            block_list_records block =
              map (\<lambda>item. \<lparr>lr_page = tb_page block, lr_items = [item]\<rparr>)
                (bullet_items (split_on 10 (tb_text block))) \<and>
            length (block_list_records block) =
              length (filter (\<lambda>line. bullet_match (strip line) \<noteq> None)
                        (split_on 10 (tb_text block))))"
proof -
  have step: "in_step styles all_blocks"
    using scan_pages_in_step [OF scan] by (simp add: in_step_def first_occurrences_def)
  have 1: "ls = concat (map block_list_records all_blocks)"
  proof (cases styles)
    case Nil
    with step have "all_blocks = []"
      by (simp add: in_step_def first_occurrences_def)
    moreover from ex scan Nil have "ls = []"
      by (simp add: extract_content_and_outline_def)
    ultimately show ?thesis by simp
  next
    case (Cons first others)
    with ex scan obtain cs' ol' where
      "process_blocks U (heading_styles (fst (max_first first others)) styles)
         (sorted_heading_sizes (heading_styles (fst (max_first first others)) styles))
         (level_map (sorted_heading_sizes (heading_styles (fst (max_first first others)) styles)))
         all_blocks ([], [], []) = Inr (cs', ol', ls)"
      by (auto simp: extract_content_and_outline_def Let_def split: sum.splits)
    from process_blocks_lists [OF this] show ?thesis by simp
  qed
  have 2: "\<forall>r \<in> set ls. \<exists>item. lr_items r = [item]"
    unfolding 1 using block_list_records_singleton by auto
  have 3: "\<forall>block \<in> set all_blocks. \<not> leader_dots block \<longrightarrow>
            block_list_records block =
              map (\<lambda>item. \<lparr>lr_page = tb_page block, lr_items = [item]\<rparr>)
                (bullet_items (split_on 10 (tb_text block))) \<and>
            length (block_list_records block) =
              length (filter (\<lambda>line. bullet_match (strip line) \<noteq> None)
                        (split_on 10 (tb_text block)))"
    by (simp add: block_list_records_def bullet_items_length list_item_record_def [abs_def])
  from 1 2 3 show ?thesis by blast
qed


lemma le_Min_singleton:
  fixes S :: "int set"
  assumes "finite S" and "S \<noteq> {}"
  shows "{z \<in> S. z \<le> Min S} = {Min S}"
proof (rule set_eqI)
  fix z
  show "z \<in> {z \<in> S. z \<le> Min S} \<longleftrightarrow> z \<in> {Min S}"
  proof
    assume "z \<in> {z \<in> S. z \<le> Min S}"
    then have "z \<in> S" and "z \<le> Min S" by simp_all
    with Min_le [OF assms(1), of z] show "z \<in> {Min S}" by simp
  next
    assume "z \<in> {Min S}"
    with Min_in [OF assms] show "z \<in> {z \<in> S. z \<le> Min S}" by simp
  qed
qed

text \<open>
  One iteration on a block that is no line of leader dots, has no line matching the bullet
  pattern and has a heading style: the heading branch is taken, and the level is the
  number of distinct heading sizes minus the index of the block's size in their
  descending list.
\<close>

lemma heading_level_step:
  assumes hs: "hstyles = heading_styles body_style styles"
    and sz: "sizes = sorted_heading_sizes hstyles"
    and lm: "lmap = level_map sizes"
    and nd: "\<not> leader_dots block"
    and nb: "bullet_items (split_on 10 (tb_text block)) = []"
    and h: "tb_style block \<in> set hstyles"
  shows "\<exists>i level.
           index_of (fst (tb_style block)) sizes = Some i \<and>
           i < length sizes \<and> sizes ! i = fst (tb_style block) \<and>
           level = int (card (fst ` set hstyles)) - int i \<and>
           level = int (card {z \<in> fst ` set hstyles. z \<le> fst (tb_style block)}) \<and>
           (fst (tb_style block) = Max (fst ` set hstyles) \<longrightarrow>
              level = int (card (fst ` set hstyles))) \<and>
           (fst (tb_style block) = Min (fst ` set hstyles) \<longrightarrow> level = 1) \<and>
           process_block U hstyles sizes lmap block (cs, ol, ls) =
             Inr (cs @ [\<lparr>sec_type = ascii ''heading'', sec_content = tb_text block,
                          sec_page = tb_page block, sec_bbox = tb_bbox block,
                          sec_level = level\<rparr>],
                  ol @ [\<lparr>ol_level = level_label level, ol_text = tb_text block,
                          ol_page = tb_page block\<rparr>],
                  ls)"
proof -
  have d: "distinct sizes" unfolding sz by (rule sorted_heading_sizes_distinct)
  have srt: "sorted_wrt (\<lambda>a b. a > b) sizes" unfolding sz by (rule sorted_heading_sizes_desc)
  have st: "set sizes = fst ` set hstyles" unfolding sz by (rule sorted_heading_sizes_set)
  have len: "length sizes = card (fst ` set hstyles)"
    unfolding sz by (rule sorted_heading_sizes_length)
  have ll: "length lmap = card (fst ` set hstyles)"
    unfolding lm using len by (simp add: level_map_zip [OF d])
  from h st have "fst (tb_style block) \<in> set sizes" by auto
  from index_of_mem [OF this] obtain i where
    io: "index_of (fst (tb_style block)) sizes = Some i" and i: "i < length sizes"
    and nth: "sizes ! i = fst (tb_style block)"
    by blast
  define level where "level = int (card (fst ` set hstyles)) - int i"
  have "card {z \<in> set sizes. z \<le> sizes ! i} = length sizes - i"
    by (rule desc_rank [OF srt d i])
  then have rank: "level = int (card {z \<in> fst ` set hstyles. z \<le> fst (tb_style block)})"
    using i len by (simp add: level_def st nth)
  have top: "level = int (card (fst ` set hstyles))"
    if m: "fst (tb_style block) = Max (fst ` set hstyles)"
  proof -
    from i have ne: "sizes \<noteq> []" by auto
    from sorted_desc_hd_Max [OF srt ne] st m nth have "sizes ! 0 = sizes ! i"
      using ne by (simp add: hd_conv_nth)
    moreover from ne have "0 < length sizes" by simp
    ultimately have "i = 0" using nth_eq_iff_index_eq [OF d, of 0 i] i by simp
    then show ?thesis by (simp add: level_def)
  qed
  have bottom: "level = 1" if m: "fst (tb_style block) = Min (fst ` set hstyles)"
  proof -
    have fin: "finite (fst ` set hstyles)" by simp
    have ne: "fst ` set hstyles \<noteq> {}" using h by auto
    have "{z \<in> fst ` set hstyles. z \<le> Min (fst ` set hstyles)} = {Min (fst ` set hstyles)}"
      by (rule le_Min_singleton [OF fin ne])
    with rank m show ?thesis by simp
  qed
  have pb: "process_block U hstyles sizes lmap block (cs, ol, ls) =
             Inr (cs @ [\<lparr>sec_type = ascii ''heading'', sec_content = tb_text block,
                          sec_page = tb_page block, sec_bbox = tb_bbox block,
                          sec_level = level\<rparr>],
                  ol @ [\<lparr>ol_level = level_label level, ol_text = tb_text block,
                          ol_page = tb_page block\<rparr>],
                  ls)"
    unfolding level_def ll [symmetric] by (rule process_block_heading [OF nd nb h io])
  from io i nth rank top bottom pb show ?thesis
    unfolding level_def by blast
qed

lemma str_of_nat_digit: "n < 10 \<Longrightarrow> str_of_nat n = [48 + n]"
  by (subst str_of_nat.simps) simp

lemma level_label_digit: "0 \<le> l \<Longrightarrow> l < 10 \<Longrightarrow> level_label l = [72, 48 + nat l]"
  by (simp add: level_label_def str_of_int_def str_of_nat_digit)

lemma sample_level_map:
  "level_map [18, 12, 10] = [(18, ascii ''H1''), (12, ascii ''H2''), (10, ascii ''H3'')]"
  by (simp add: level_map_def level_label_digit ascii_def)

lemma notes_block_plain:
  "\<not> leader_dots notes_block \<and> bullet_items (split_on 10 (tb_text notes_block)) = []"
  by (simp add: leader_dots_def notes_block_def bullet_items_def bullet_match_def
      bullet_glyph_def strip_def py_isspace_def re_space_def ascii_def)

lemma heading_level_step_example:
  "\<not> leader_dots notes_block \<and>
   bullet_items (split_on 10 (tb_text notes_block)) = [] \<and>
   tb_style notes_block \<in> set (heading_styles (10, 0) sample_styles) \<and>
   process_block sample_platform [(18, 0), (12, 1), (12, 0), (10, 1)] [18, 12, 10]
       (level_map [18, 12, 10]) notes_block ([], [], []) =
     Inr ([heading_section ''Notes'' 1 2],
          [\<lparr>ol_level = ascii ''H2'', ol_text = ascii ''Notes'', ol_page = 1\<rparr>], [])"
proof -
  have nd: "\<not> leader_dots notes_block"
    and nb: "bullet_items (split_on 10 (tb_text notes_block)) = []"
    using notes_block_plain by simp_all
  have h: "tb_style notes_block \<in> set [(18, 0), (12, 1), (12, 0), (10, 1)]"
    by (simp add: notes_block_def)
  have c: "card (fst ` set [(18 :: int, 0 :: int), (12, 1), (12, 0), (10, 1)]) = 3"
    using sorted_heading_sizes_length [of "[(18, 0), (12, 1), (12, 0), (10, 1)]"]
    by (simp only: sample_sizes) simp
  have "\<exists>i level.
           index_of (fst (tb_style notes_block)) [18, 12, 10] = Some i \<and>
           level = int 3 - int i \<and>
           process_block sample_platform [(18, 0), (12, 1), (12, 0), (10, 1)] [18, 12, 10]
               (level_map [18, 12, 10]) notes_block ([], [], []) =
             Inr ([] @ [\<lparr>sec_type = ascii ''heading'', sec_content = tb_text notes_block,
                          sec_page = tb_page notes_block, sec_bbox = tb_bbox notes_block,
                          sec_level = level\<rparr>],
                  [] @ [\<lparr>ol_level = level_label level, ol_text = tb_text notes_block,
                          ol_page = tb_page notes_block\<rparr>],
                  [])"
    using heading_level_step [OF sample_heading_styles [symmetric] sample_sizes [symmetric] refl
      nd nb h, where U = sample_platform and cs = "[]" and ol = "[]" and ls = "[]"]
    unfolding c by (elim exE conjE) (intro exI conjI, assumption+)
  then obtain i level where io: "index_of (fst (tb_style notes_block)) [18, 12, 10] = Some i"
    and lv: "level = int 3 - int i"
    and pb: "process_block sample_platform [(18, 0), (12, 1), (12, 0), (10, 1)] [18, 12, 10]
               (level_map [18, 12, 10]) notes_block ([], [], []) =
             Inr ([] @ [\<lparr>sec_type = ascii ''heading'', sec_content = tb_text notes_block,
                          sec_page = tb_page notes_block, sec_bbox = tb_bbox notes_block,
                          sec_level = level\<rparr>],
                  [] @ [\<lparr>ol_level = level_label level, ol_text = tb_text notes_block,
                          ol_page = tb_page notes_block\<rparr>],
                  [])"
    by (elim exE conjE)
  have "index_of (fst (tb_style notes_block)) [18, 12, 10] = Some 1"
    by (simp add: notes_block_def)
  with io have i: "i = 1" by simp
  with lv have l2: "level = 2" by simp
  have "level_label 2 = ascii ''H2''" by (simp add: level_label_digit ascii_def)
  with pb have "process_block sample_platform [(18, 0), (12, 1), (12, 0), (10, 1)] [18, 12, 10]
       (level_map [18, 12, 10]) notes_block ([], [], []) =
     Inr ([heading_section ''Notes'' 1 2],
          [\<lparr>ol_level = ascii ''H2'', ol_text = ascii ''Notes'', ol_page = 1\<rparr>], [])"
    unfolding l2 by (simp add: notes_block_def heading_section_def)
  with nd nb h show ?thesis by (simp only: sample_heading_styles simp_thms)
qed

lemma bullet_block_lines:
  "split_on 10 (tb_text bullet_block) =
   [buy_milk_line, [45, 32] @ ascii ''Eggs'', ascii ''and bread'']"
  by (simp add: bullet_block_def bullet_span_def buy_milk_line_def ascii_def)

lemma bullet_block_items:
  "bullet_items (split_on 10 (tb_text bullet_block)) = [ascii ''Buy milk'', ascii ''Eggs'']"
  unfolding bullet_block_lines
  by (simp add: bullet_items_def buy_milk_line_def bullet_match_def bullet_glyph_def strip_def
      py_isspace_def re_space_def re_dot_def ascii_def)

lemma bullet_line_step_example:
  "buy_milk_line \<in> set (split_on 10 (tb_text bullet_block)) \<and>
   tb_style bullet_block \<in> set [(10, 0), (12, 0 :: int)] \<and>
   process_block sample_platform [(10, 0), (12, 0)] [12, 10] (level_map [12, 10]) bullet_block
       ([], [], []) =
     Inr ([list_item_section bullet_block (ascii ''Buy milk''),
           list_item_section bullet_block (ascii ''Eggs'')],
          [],
          [list_item_record bullet_block (ascii ''Buy milk''),
           list_item_record bullet_block (ascii ''Eggs'')])"
proof -
  have line: "buy_milk_line \<in> set (split_on 10 (tb_text bullet_block))"
    by (simp add: bullet_block_lines)
  have "tb_style bullet_block \<in> set [(10, 0), (12, 0 :: int)]"
    by (simp add: bullet_block_def)
  with line bullet_line_step [OF line, where U = sample_platform
      and hstyles = "[(10, 0), (12, 0)]" and sizes = "[12, 10]" and lmap = "level_map [12, 10]"
      and cs = "[]" and ol = "[]" and ls = "[]"]
  show ?thesis by (simp only: bullet_block_items list.map append_Nil simp_thms)
qed

lemma small_scan:
  "scan_pages 0 (doc_pages small_doc) ([], [], []) =
   Inr ([((18, 0), 9), ((10, 0), 27)], [groceries_block, bullet_block], small_text @ [10])"
  by (simp add: small_doc_def text_block_def text_span_def bullet_span_def bullet_block_def
      groceries_block_def block_text_of_def first_span_def style_key_of_def small_text_def
      strip_def ascii_def py_isspace_def Let_def)

lemma groceries_block_plain:
  "\<not> leader_dots groceries_block \<and> bullet_items (split_on 10 (tb_text groceries_block)) = []"
  by (simp add: leader_dots_def groceries_block_def bullet_items_def bullet_match_def
      bullet_glyph_def strip_def py_isspace_def re_space_def ascii_def)

lemma bullet_block_not_dots: "\<not> leader_dots bullet_block"
  by (simp add: leader_dots_def bullet_block_def bullet_span_def strip_def py_isspace_def
      ascii_def)

lemma small_text_strip:
  "strip (small_text @ [10]) = ascii ''Groceries'' @ [10] @ ascii ''3. Enter your name''"
  by (simp add: small_text_def strip_def py_isspace_def ascii_def)

lemma small_toc: "doc_toc small_doc = []"
  by (simp add: small_doc_def)

lemma small_extract:
  "extract_content_and_outline U small_doc =
   Inr (small_sections, small_outline,
        ascii ''Groceries'' @ [10] @ ascii ''3. Enter your name'', small_lists)"
proof -
  have hs: "heading_styles (10, 0) [((18, 0), 9), ((10, 0), 27)] = [(18, 0)]"
    by (simp add: heading_styles_def is_heading_style_def)
  have sz: "sorted_heading_sizes [(18, 0)] = [18]"
    by (simp add: sorted_heading_sizes_def)
  have lm: "level_map [18] = [(18, ascii ''H1'')]"
    by (simp add: level_map_def level_label_digit ascii_def)
  have nd: "\<not> leader_dots groceries_block"
    and nb: "bullet_items (split_on 10 (tb_text groceries_block)) = []"
    using groceries_block_plain by simp_all
  have h: "tb_style groceries_block \<in> set [(18, 0)]" by (simp add: groceries_block_def)
  have io: "index_of (fst (tb_style groceries_block)) [18] = Some 0"
    by (simp add: groceries_block_def)
  have 1: "process_block U [(18, 0)] [18] [(18, ascii ''H1'')] groceries_block ([], [], []) =
           Inr ([heading_section ''Groceries'' 1 1], small_outline, [])"
    unfolding process_block_heading [OF nd nb h io]
    by (simp add: groceries_block_def heading_section_def small_outline_def level_label_digit
        ascii_def)
  have ne: "bullet_items (split_on 10 (tb_text bullet_block)) \<noteq> []"
    by (simp add: bullet_block_items)
  have 2: "process_block U [(18, 0)] [18] [(18, ascii ''H1'')] bullet_block
             ([heading_section ''Groceries'' 1 1], small_outline, []) =
           Inr (small_sections, small_outline, small_lists)"
    unfolding process_block_list [OF bullet_block_not_dots ne]
    by (simp add: bullet_block_items small_sections_def small_lists_def)
  have pb: "process_blocks U [(18, 0)] [18] [(18, ascii ''H1'')] [groceries_block, bullet_block]
          ([], [], []) = Inr (small_sections, small_outline, small_lists)"
    by (simp add: 1 2)
  have mf: "fst (max_first ((18, 0), 9) [((10, 0), 27)]) = (10, 0)" by simp
  show ?thesis
    unfolding extract_content_and_outline_def small_scan
    by (simp only: sum.case prod.case list.case Let_def mf hs sz lm pb small_toc
        small_text_strip if_False simp_thms)
qed

theorem list_records_singleton_witness:
  "extract_content_and_outline sample_platform small_doc =
     Inr (small_sections, small_outline,
          ascii ''Groceries'' @ [10] @ ascii ''3. Enter your name'', small_lists) \<and>
   scan_pages 0 (doc_pages small_doc) ([], [], []) =
     Inr ([((18, 0), 9), ((10, 0), 27)], [groceries_block, bullet_block], small_text @ [10]) \<and>
   small_lists = concat (map block_list_records [groceries_block, bullet_block]) \<and>
   block_list_records bullet_block =
     [\<lparr>lr_page = 1, lr_items = [ascii ''Buy milk'']\<rparr>,
      \<lparr>lr_page = 1, lr_items = [ascii ''Eggs'']\<rparr>]"
proof -
  note t = list_records_singleton [OF small_extract [of sample_platform] small_scan]
  from t have c: "small_lists = concat (map block_list_records [groceries_block, bullet_block])"
    by (rule conjunct1)
  from t have b: "\<forall>block \<in> set [groceries_block, bullet_block]. \<not> leader_dots block \<longrightarrow>
            block_list_records block =
              map (\<lambda>item. \<lparr>lr_page = tb_page block, lr_items = [item]\<rparr>)
                (bullet_items (split_on 10 (tb_text block))) \<and>
            length (block_list_records block) =
              length (filter (\<lambda>line. bullet_match (strip line) \<noteq> None)
                        (split_on 10 (tb_text block)))"
    by (elim conjE)
  have m: "bullet_block \<in> set [groceries_block, bullet_block]" by simp
  from bspec [OF b m] bullet_block_not_dots have "block_list_records bullet_block =
              map (\<lambda>item. \<lparr>lr_page = tb_page bullet_block, lr_items = [item]\<rparr>)
                (bullet_items (split_on 10 (tb_text bullet_block)))"
    by (elim impE conjE) assumption+
  then have "block_list_records bullet_block =
              map (\<lambda>item. \<lparr>lr_page = tb_page bullet_block, lr_items = [item]\<rparr>)
                [ascii ''Buy milk'', ascii ''Eggs'']"
    by (simp only: bullet_block_items)
  then have "block_list_records bullet_block =
     [\<lparr>lr_page = 1, lr_items = [ascii ''Buy milk'']\<rparr>,
      \<lparr>lr_page = 1, lr_items = [ascii ''Eggs'']\<rparr>]"
    by (simp add: bullet_block_def)
  with c small_extract [of sample_platform] small_scan show ?thesis by (simp only: simp_thms)
qed

section \<open>Tables and the document boundary\<close>

lemma tables_of_pages_failure:
  "tables_of_pages i (map Inr good @ Inl e # rest) tables =
   tables_of_pages i (map Inr good) tables"
  by (induction good arbitrary: i tables) simp_all

lemma process_single_pdf_tables:
  "process_single_pdf U doc pdf pdf_stem =
   map_sum id (\<lambda>out. out\<lparr>out_tables := extract_tables_with_pdfplumber pdf\<rparr>)
     (process_single_pdf U doc pdf' pdf_stem)"
proof (cases "extract_content_and_outline U doc")
  case (Inl e)
  then show ?thesis by (simp add: process_single_pdf_def)
next
  case (Inr r)
  obtain cs ol ft ls where "r = (cs, ol, ft, ls)" by (cases r) auto
  with Inr show ?thesis by (simp add: process_single_pdf_def Let_def)
qed

lemma failing_pdf_tables: "extract_tables_with_pdfplumber failing_pdf = [first_page_table]"
  by (simp add: extract_tables_with_pdfplumber_def failing_pdf_def first_page_table_def
      clean_table_def List.map_filter_def strip_def py_isspace_def ascii_def Let_def
      upt_conv_Cons)


lemma small_process:
  "map_sum id out_tables (process_single_pdf U small_doc pdf pdf_stem) =
   Inr (extract_tables_with_pdfplumber pdf)"
  by (simp add: process_single_pdf_def small_extract Let_def)

text \<open>
  C5, the claim as stated: the table source \<open>failing_pdf\<close> raises on its second page, and
  the output of the document still holds the table of the first page.
\<close>

theorem table_failure_counterexample:
  "map_sum id out_tables (process_single_pdf sample_platform small_doc failing_pdf (ascii ''doc'')) =
     Inr [first_page_table] \<and>
   [first_page_table] \<noteq> []"
  by (simp add: small_process failing_pdf_tables)

text \<open>
  C5, amended. When opening the file raises, the table list is empty. When a page raises,
  the table list is the one of the pages before it, so it is empty when the first page
  raises. Whatever the table source does, the document is processed as with any other
  table source: the same exception at the document boundary, or the same output but for
  its tables.
\<close>

theorem table_failure_confined:
  "extract_tables_with_pdfplumber (Inl e) = [] \<and>
   extract_tables_with_pdfplumber (Inr (map Inr good @ Inl e # rest)) =
     extract_tables_with_pdfplumber (Inr (map Inr good)) \<and>
   extract_tables_with_pdfplumber (Inr (Inl e # rest)) = [] \<and>
   process_single_pdf U doc pdf pdf_stem =
     map_sum id (\<lambda>out. out\<lparr>out_tables := extract_tables_with_pdfplumber pdf\<rparr>)
       (process_single_pdf U doc pdf' pdf_stem)"
proof -
  have "extract_tables_with_pdfplumber (Inr (map Inr good @ Inl e # rest)) =
     extract_tables_with_pdfplumber (Inr (map Inr good))"
    by (simp add: extract_tables_with_pdfplumber_def tables_of_pages_failure)
  moreover have "extract_tables_with_pdfplumber (Inl e) = []"
    and "extract_tables_with_pdfplumber (Inr (Inl e # rest)) = []"
    by (simp_all add: extract_tables_with_pdfplumber_def)
  ultimately show ?thesis using process_single_pdf_tables [of U doc pdf pdf_stem pdf'] by simp
qed

theorem table_failure_confined_witness:
  "extract_tables_with_pdfplumber failing_pdf =
     extract_tables_with_pdfplumber
       (Inr [Inr [[[Some (ascii ''Item''), Some (ascii ''Price'')],
                   [Some (ascii ''Milk''), Some (ascii ''2'')]]]]) \<and>
   extract_tables_with_pdfplumber failing_pdf = [first_page_table]"
proof -
  have f: "failing_pdf =
        Inr (map Inr [[[[Some (ascii ''Item''), Some (ascii ''Price'')],
                        [Some (ascii ''Milk''), Some (ascii ''2'')]]]] @ Inl ValueError # [])"
    by (simp add: failing_pdf_def)
  note t = table_failure_confined [where good = "[[[[Some (ascii ''Item''), Some (ascii ''Price'')],
                        [Some (ascii ''Milk''), Some (ascii ''2'')]]]]" and e = ValueError
        and rest = "[]" and U = sample_platform and doc = small_doc and pdf = failing_pdf
        and pdf' = failing_pdf and pdf_stem = "[]"]
  from t have "extract_tables_with_pdfplumber
        (Inr (map Inr [[[[Some (ascii ''Item''), Some (ascii ''Price'')],
                        [Some (ascii ''Milk''), Some (ascii ''2'')]]]] @ Inl ValueError # [])) =
     extract_tables_with_pdfplumber
       (Inr (map Inr [[[[Some (ascii ''Item''), Some (ascii ''Price'')],
                        [Some (ascii ''Milk''), Some (ascii ''2'')]]]]))"
    by (elim conjE)
  then have "extract_tables_with_pdfplumber failing_pdf =
     extract_tables_with_pdfplumber
       (Inr (map Inr [[[[Some (ascii ''Item''), Some (ascii ''Price'')],
                        [Some (ascii ''Milk''), Some (ascii ''2'')]]]]))"
    by (simp only: f [symmetric])
  then show ?thesis by (simp add: failing_pdf_tables)
qed

section \<open>The assembler, end to end\<close>

lemma block_sections_dots:
  "leader_dots block \<Longrightarrow> block_sections U hstyles sizes lmap block = []"
  "leader_dots block \<Longrightarrow> block_outline U hstyles sizes lmap block = []"
  by (simp_all add: block_sections_def block_outline_def process_block_dots)

lemma block_sections_list:
  assumes "\<not> leader_dots block" and "bullet_items (split_on 10 (tb_text block)) \<noteq> []"
  shows "block_sections U hstyles sizes lmap block =
           map (list_item_section block) (bullet_items (split_on 10 (tb_text block)))"
    and "block_outline U hstyles sizes lmap block = []"
  by (simp_all add: block_sections_def block_outline_def process_block_list [OF assms])

lemma block_sections_heading:
  assumes "\<not> leader_dots block" and "bullet_items (split_on 10 (tb_text block)) = []"
    and "tb_style block \<in> set hstyles"
    and "index_of (fst (tb_style block)) sizes = Some i"
  shows "block_sections U hstyles sizes lmap block =
           [\<lparr>sec_type = ascii ''heading'', sec_content = tb_text block,
             sec_page = tb_page block, sec_bbox = tb_bbox block,
             sec_level = int (length lmap) - int i\<rparr>]"
    and "block_outline U hstyles sizes lmap block =
           [\<lparr>ol_level = level_label (int (length lmap) - int i),
             ol_text = tb_text block, ol_page = tb_page block\<rparr>]"
  by (simp_all add: block_sections_def block_outline_def process_block_heading [OF assms])

lemma block_sections_other:
  assumes "\<not> leader_dots block" and "bullet_items (split_on 10 (tb_text block)) = []"
    and "tb_style block \<notin> set hstyles"
  shows "block_sections U hstyles sizes lmap block =
           [\<lparr>sec_type = classify_content_block U (tb_text block),
             sec_content = tb_text block, sec_page = tb_page block,
             sec_bbox = tb_bbox block, sec_level = 0\<rparr>]"
    and "block_outline U hstyles sizes lmap block = []"
  by (simp_all add: block_sections_def block_outline_def process_block_other [OF assms])

lemma process_block_appends:
  assumes "process_block U hstyles sizes lmap block (cs, ol, ls) = Inr (cs', ol', ls')"
  shows "cs' = cs @ block_sections U hstyles sizes lmap block \<and>
         ol' = ol @ block_outline U hstyles sizes lmap block"
proof (cases "leader_dots block")
  case True
  with assms show ?thesis by (simp add: process_block_dots block_sections_dots)
next
  case nd: False
  show ?thesis
  proof (cases "bullet_items (split_on 10 (tb_text block)) = []")
    case False
    with assms nd show ?thesis
      by (simp add: process_block_list block_sections_list)
  next
    case nb: True
    show ?thesis
    proof (cases "tb_style block \<in> set hstyles")
      case False
      with assms nd nb show ?thesis
        by (simp add: process_block_other block_sections_other)
    next
      case h: True
      show ?thesis
      proof (cases "index_of (fst (tb_style block)) sizes")
        case None
        with assms nd nb h show ?thesis
          by (simp add: process_block_def leader_dots_def bullet_items_empty_iff Let_def)
      next
        case (Some i)
        with assms nd nb h show ?thesis
          by (simp add: process_block_heading block_sections_heading)
      qed
    qed
  qed
qed

lemma process_blocks_appends:
  "process_blocks U hstyles sizes lmap blocks (cs, ol, ls) = Inr (cs', ol', ls') \<Longrightarrow>
   cs' = cs @ concat (map (block_sections U hstyles sizes lmap) blocks) \<and>
   ol' = ol @ concat (map (block_outline U hstyles sizes lmap) blocks)"
proof (induction blocks arbitrary: cs ol ls)
  case Nil
  then show ?case by simp
next
  case (Cons block blocks)
  from Cons.prems obtain cs1 ol1 ls1 where
    1: "process_block U hstyles sizes lmap block (cs, ol, ls) = Inr (cs1, ol1, ls1)"
    and 2: "process_blocks U hstyles sizes lmap blocks (cs1, ol1, ls1) = Inr (cs', ol', ls')"
    by (auto split: sum.splits)
  from process_block_appends [OF 1] Cons.IH [OF 2] show ?case by simp
qed

text \<open>
  What \<open>extract_content_and_outline\<close> returns for a document with text: the loop ran over
  the whole block sequence with the heading styles, sizes and level map of the histogram,
  the sections are the contributions of the blocks in order, and the outline is the
  contributions of the blocks unless the document has a table of contents.
\<close>

lemma extract_assembled:
  assumes ex: "extract_content_and_outline U doc = Inr (cs, ol, ft, ls)"
    and scan: "scan_pages 0 (doc_pages doc) ([], [], []) = Inr (styles, all_blocks, full_text)"
    and ne: "styles = first # others"
    and hs: "hstyles = heading_styles (fst (max_first first others)) styles"
    and sz: "sizes = sorted_heading_sizes hstyles"
    and lm: "lmap = level_map sizes"
  shows "\<exists>inferred.
           process_blocks U hstyles sizes lmap all_blocks ([], [], []) = Inr (cs, inferred, ls) \<and>
           cs = concat (map (block_sections U hstyles sizes lmap) all_blocks) \<and>
           inferred = concat (map (block_outline U hstyles sizes lmap) all_blocks) \<and>
           ol = (if doc_toc doc \<noteq> [] then toc_outline (doc_toc doc) else inferred)"
proof -
  from ex scan ne obtain inferred where
    pb: "process_blocks U hstyles sizes lmap all_blocks ([], [], []) = Inr (cs, inferred, ls)"
    and ol: "ol = (if doc_toc doc \<noteq> [] then toc_outline (doc_toc doc) else inferred)"
    unfolding hs sz lm
    by (auto simp: extract_content_and_outline_def Let_def split: sum.splits)
  from process_blocks_appends [OF pb] pb ol show ?thesis by simp
qed


lemma buy_milk_block_not_dots:
  assumes line: "buy_milk_line \<in> set (split_on 10 (tb_text block))"
  shows "\<not> leader_dots block"
proof -
  have "66 \<in> set buy_milk_line" by (simp add: buy_milk_line_def ascii_def)
  with split_on_set [OF line] have "66 \<in> set (tb_text block)" by blast
  then have "66 \<in> set (strip (tb_text block))"
    by (rule strip_keeps) (simp add: py_isspace_def)
  then show ?thesis
    unfolding leader_dots_def list_all_iff by fastforce
qed

lemma scanned_block_styles:
  assumes scan: "scan_pages 0 (doc_pages doc) ([], [], []) = Inr (styles, all_blocks, full_text)"
    and mem: "block \<in> set all_blocks"
  shows "\<exists>first others. styles = first # others"
proof -
  have "in_step styles all_blocks"
    using scan_pages_in_step [OF scan] by (simp add: in_step_def first_occurrences_def)
  then have "set (map fst styles) = tb_style ` set all_blocks"
    by (simp add: in_step_def set_first_occurrences)
  with mem have "styles \<noteq> []" by auto
  then show ?thesis by (cases styles) auto
qed

text \<open>
  C4. Let a document be extracted without an exception, and let a block of its block
  sequence have \<open>\<bullet> Buy milk\<close> (U+2022, a space, the words) among the lines of its text.
  The returned \<open>content_sections\<close> are the contributions of the blocks in order, as the
  loop over the whole block sequence leaves them, and the contribution of this block is
  one section per line that matches the bullet pattern and nothing else, whatever the
  style of the block (a heading style too): each of type \<open>list_item\<close> and level 0, one of
  them with the content \<open>Buy milk\<close>, which therefore is among the returned sections. The
  block contributes nothing to the outline.
\<close>

theorem bullet_line_list_item:
  assumes ex: "extract_content_and_outline U doc = Inr (cs, ol, ft, ls)"
    and scan: "scan_pages 0 (doc_pages doc) ([], [], []) = Inr (styles, all_blocks, full_text)"
    and mem: "block \<in> set all_blocks"
    and line: "buy_milk_line \<in> set (split_on 10 (tb_text block))"
  shows "\<exists>first others hstyles sizes lmap inferred.
           styles = first # others \<and>
           hstyles = heading_styles (fst (max_first first others)) styles \<and>
           sizes = sorted_heading_sizes hstyles \<and> lmap = level_map sizes \<and>
           process_blocks U hstyles sizes lmap all_blocks ([], [], []) = Inr (cs, inferred, ls) \<and>
           cs = concat (map (block_sections U hstyles sizes lmap) all_blocks) \<and>
           block_sections U hstyles sizes lmap block =
             map (list_item_section block) (bullet_items (split_on 10 (tb_text block))) \<and>
           block_outline U hstyles sizes lmap block = [] \<and>
           ascii ''Buy milk'' \<in> set (bullet_items (split_on 10 (tb_text block))) \<and>
           length (block_sections U hstyles sizes lmap block) =
             length (filter (\<lambda>line. bullet_match (strip line) \<noteq> None)
                       (split_on 10 (tb_text block))) \<and>
           (\<forall>sec \<in> set (block_sections U hstyles sizes lmap block).
              sec_type sec = ascii ''list_item'' \<and> sec_level sec = 0) \<and>
           list_item_section block (ascii ''Buy milk'') \<in> set cs \<and>
           sec_type (list_item_section block (ascii ''Buy milk'')) = ascii ''list_item'' \<and>
           sec_content (list_item_section block (ascii ''Buy milk'')) = ascii ''Buy milk'' \<and>
           sec_level (list_item_section block (ascii ''Buy milk'')) = 0"
proof -
  from scanned_block_styles [OF scan mem] obtain first others where ne: "styles = first # others"
    by blast
  define hstyles where "hstyles = heading_styles (fst (max_first first others)) styles"
  define sizes where "sizes = sorted_heading_sizes hstyles"
  define lmap where "lmap = level_map sizes"
  from extract_assembled [OF ex scan ne hstyles_def sizes_def lmap_def] obtain inferred where
    pb: "process_blocks U hstyles sizes lmap all_blocks ([], [], []) = Inr (cs, inferred, ls)"
    and cs: "cs = concat (map (block_sections U hstyles sizes lmap) all_blocks)"
    by blast
  have nd: "\<not> leader_dots block" by (rule buy_milk_block_not_dots [OF line])
  have item: "ascii ''Buy milk'' \<in> set (bullet_items (split_on 10 (tb_text block)))"
    using bullet_items_mem [OF line buy_milk_match] by (simp add: buy_milk_item)
  then have nb: "bullet_items (split_on 10 (tb_text block)) \<noteq> []" by auto
  note bs = block_sections_list [OF nd nb, of U hstyles sizes lmap]
  have len: "length (block_sections U hstyles sizes lmap block) =
             length (filter (\<lambda>line. bullet_match (strip line) \<noteq> None)
                       (split_on 10 (tb_text block)))"
    by (simp add: bs(1) bullet_items_length)
  have types: "\<forall>sec \<in> set (block_sections U hstyles sizes lmap block).
              sec_type sec = ascii ''list_item'' \<and> sec_level sec = 0"
    by (auto simp: bs(1) list_item_section_def)
  have "list_item_section block (ascii ''Buy milk'') \<in>
        set (block_sections U hstyles sizes lmap block)"
    using item by (simp add: bs(1))
  with mem have incs: "list_item_section block (ascii ''Buy milk'') \<in> set cs"
    unfolding cs by auto
  have fields: "sec_type (list_item_section block (ascii ''Buy milk'')) = ascii ''list_item''"
    "sec_content (list_item_section block (ascii ''Buy milk'')) = ascii ''Buy milk''"
    "sec_level (list_item_section block (ascii ''Buy milk'')) = 0"
    by (simp_all add: list_item_section_def)
  from ne hstyles_def sizes_def lmap_def pb cs bs item len types incs fields
  show ?thesis by blast
qed


theorem bullet_line_list_item_witness:
  "extract_content_and_outline sample_platform small_doc =
     Inr (small_sections, small_outline,
          ascii ''Groceries'' @ [10] @ ascii ''3. Enter your name'', small_lists) \<and>
   scan_pages 0 (doc_pages small_doc) ([], [], []) =
     Inr ([((18, 0), 9), ((10, 0), 27)], [groceries_block, bullet_block], small_text @ [10]) \<and>
   bullet_block \<in> set [groceries_block, bullet_block] \<and>
   buy_milk_line \<in> set (split_on 10 (tb_text bullet_block)) \<and>
   list_item_section bullet_block (ascii ''Buy milk'') \<in> set small_sections"
proof -
  have mem: "bullet_block \<in> set [groceries_block, bullet_block]" by simp
  have line: "buy_milk_line \<in> set (split_on 10 (tb_text bullet_block))"
    by (simp add: bullet_block_lines)
  from bullet_line_list_item [OF small_extract [of sample_platform] small_scan mem line]
  have "list_item_section bullet_block (ascii ''Buy milk'') \<in> set small_sections"
    by (elim exE conjE)
  with small_extract [of sample_platform] small_scan mem line show ?thesis
    by (simp only: simp_thms)
qed




section \<open>Title resolution\<close>



























section \<open>Static form fields\<close>

lemma backtrack_numeral:
  "backtrack f lo (numeral n) = backtrack f lo (Suc (pred_numeral n))"
  by (simp add: numeral_eq_Suc)

lemma match_here_Nil: "match_here U [] = None"
  by (simp add: match_here_def match_numeral_def greedy_def)

lemma find_fields_Nil: "find_fields U bol [] = []"
  by (subst find_fields.simps) (simp add: match_here_Nil)

lemma find_fields_match:
  "match_here U s = Some (g1, g2, rest) \<Longrightarrow>
   find_fields U True s = (g1, g2) # find_fields U False rest"
  by (subst find_fields.simps) simp

lemma find_fields_skip:
  "find_fields U False (c # cs) = find_fields U (c = 10) cs"
  by (subst find_fields.simps) simp


lemmas sample_tables =
  sample_platform_def ascii_digit_def ascii_word_def ascii_lower_def

lemma superscript_match1:
  "match_here sample_platform superscript_text =
   Some ([178, 46], [65], [10, 50, 178, 41, 32, 66])"
  by (simp add: superscript_text_def match_here_def match_numeral_def match_label_def greedy_def
      toc_or_appendix_def phrase_then_boundary_def is_word_opt_def ascii_def
      re_space_def re_dot_def sample_tables Let_def)

lemma superscript_match2:
  "match_here sample_platform [50, 178, 41, 32, 66] = Some ([50, 178, 41], [66], [])"
  by (simp add: match_here_def match_numeral_def match_label_def greedy_def
      toc_or_appendix_def phrase_then_boundary_def is_word_opt_def ascii_def
      re_space_def re_dot_def sample_tables Let_def)

lemma superscript_candidates:
  "find_fields sample_platform True superscript_text = [([178, 46], [65]), ([50, 178, 41], [66])]"
  by (simp add: find_fields_match [OF superscript_match1] find_fields_skip
      find_fields_match [OF superscript_match2] find_fields_Nil)


lemma digits_value_invalid:
  "c \<in> set s \<Longrightarrow> uc_int_digit U c = None \<Longrightarrow> digits_value U acc s = None"
  by (induction s arbitrary: acc) (auto split: option.splits)

lemma digits_value_valid:
  "\<forall>c \<in> set s. uc_int_digit U c \<noteq> None \<Longrightarrow>
   digits_value U acc s = Some (foldl (\<lambda>a c. 10 * a + the (uc_int_digit U c)) acc s)"
  by (induction s arbitrary: acc) (auto split: option.splits)

lemma map_filter_append:
  "List.map_filter f (xs @ ys) = List.map_filter f xs @ List.map_filter f ys"
  by (simp add: List.map_filter_def)

lemma map_filter_length:
  "length (List.map_filter f xs) = length (filter (\<lambda>x. f x \<noteq> None) xs)"
  by (simp add: List.map_filter_def)

lemma backtrack_Some:
  "backtrack f lo k = Some r \<Longrightarrow> \<exists>n. lo \<le> n \<and> n \<le> k \<and> f n = Some r"
proof (induction k)
  case 0
  then show ?case by (auto split: if_splits)
next
  case (Suc k)
  show ?case
  proof (cases "f (Suc k)")
    case None
    with Suc.prems have "backtrack f lo k = Some r" by (auto split: if_splits)
    from Suc.IH [OF this] show ?thesis by (meson le_Suc_eq)
  next
    case (Some a)
    with Suc.prems have "lo \<le> Suc k" and "f (Suc k) = Some r"
      by (auto split: if_splits)
    then show ?thesis by blast
  qed
qed

lemma greedy_Some:
  assumes "greedy cls lo s cont = Some r"
  shows "\<exists>pre post. s = pre @ post \<and> lo \<le> length pre \<and> (\<forall>c \<in> set pre. cls c) \<and>
           cont pre post = Some r"
proof -
  from backtrack_Some [OF assms [unfolded greedy_def]] obtain n where
    n: "lo \<le> n" "n \<le> length (takeWhile cls s)" "cont (take n s) (drop n s) = Some r"
    by blast
  have le: "n \<le> length s" using n(2) length_takeWhile_le [of cls s] by (rule le_trans)
  have "take n s = take n (takeWhile cls s)"
    using n(2) by (metis append_eq_conv_conj append_take_drop_id takeWhile_dropWhile_id take_all
        take_append min.absorb2 diff_is_0_eq' take_0 append_Nil2 length_take)
  then have "\<forall>c \<in> set (take n s). cls c"
    by (metis in_set_takeD set_takeWhileD)
  moreover have "s = take n s @ drop n s" by simp
  moreover have "lo \<le> length (take n s)" using n(1) le by simp
  ultimately show ?thesis using n(3) by blast
qed

lemma match_label_Some:
  "match_label g s4 = Some (g1, g2, rest) \<Longrightarrow>
   g1 = g \<and> s4 = g2 @ rest \<and> g2 \<noteq> [] \<and> (\<forall>c \<in> set g2. re_dot c) \<and>
   (rest = [] \<or> hd rest = 10)"
proof -
  assume a: "match_label g s4 = Some (g1, g2, rest)"
  then have g: "g1 = g" and g2: "g2 = takeWhile re_dot s4" and ne: "g2 \<noteq> []"
    and rest: "rest = drop (length (takeWhile re_dot s4)) s4"
    by (auto simp: match_label_def Let_def split: if_splits)
  have r: "rest = dropWhile re_dot s4" unfolding rest by (simp add: dropWhile_eq_drop)
  have "rest = [] \<or> \<not> re_dot (hd rest)"
    unfolding r using hd_dropWhile [of re_dot s4] by blast
  then have "rest = [] \<or> hd rest = 10" by (simp add: re_dot_def)
  moreover have "s4 = g2 @ rest" unfolding g2 r by simp
  moreover have "\<forall>c \<in> set g2. re_dot c" unfolding g2 by (metis set_takeWhileD)
  ultimately show ?thesis using g ne by blast
qed

lemma match_numeral_Some:
  assumes "match_numeral U s1 = Some (g1, g2, rest)"
  shows "\<exists>num c ws2. s1 = num @ [c] @ ws2 @ g2 @ rest \<and> g1 = num @ [c] \<and> num \<noteq> [] \<and>
           (\<forall>d \<in> set num. uc_re_numeric U d) \<and> (c = 46 \<or> c = 41) \<and>
           ws2 \<noteq> [] \<and> (\<forall>w \<in> set ws2. re_space w) \<and>
           g2 \<noteq> [] \<and> (\<forall>c \<in> set g2. re_dot c) \<and> (rest = [] \<or> hd rest = 10)"
proof -
  from greedy_Some [OF assms [unfolded match_numeral_def]] obtain num s2 where
    1: "s1 = num @ s2" and n1: "1 \<le> length num" and nn: "\<forall>d \<in> set num. uc_re_numeric U d"
    and c2: "(case s2 of [] \<Rightarrow> None
              | c # s3 \<Rightarrow> if c = 46 \<or> c = 41
                  then greedy re_space 1 s3 (\<lambda>ws2 s4. match_label (num @ [c]) s4)
                  else None) = Some (g1, g2, rest)"
    by blast
  from c2 obtain c s3 where 2: "s2 = c # s3" and c: "c = 46 \<or> c = 41"
    and c3: "greedy re_space 1 s3 (\<lambda>ws2 s4. match_label (num @ [c]) s4) = Some (g1, g2, rest)"
    by (auto split: list.splits if_splits)
  from greedy_Some [OF c3] obtain ws2 s4 where 3: "s3 = ws2 @ s4" and w1: "1 \<le> length ws2"
    and ww: "\<forall>w \<in> set ws2. re_space w"
    and c4: "match_label (num @ [c]) s4 = Some (g1, g2, rest)"
    by blast
  from match_label_Some [OF c4] have g1: "g1 = num @ [c]" and 4: "s4 = g2 @ rest"
    and g2: "g2 \<noteq> []" "\<forall>c \<in> set g2. re_dot c" and r: "rest = [] \<or> hd rest = 10"
    by simp_all
  have "s1 = num @ [c] @ ws2 @ g2 @ rest" using 1 2 3 4 by simp
  moreover from n1 have "num \<noteq> []" by auto
  moreover from w1 have "ws2 \<noteq> []" by auto
  ultimately show ?thesis using g1 nn c ww g2 r by blast
qed

lemma match_here_Some:
  assumes "match_here U s = Some (g1, g2, rest)"
  shows "\<not> toc_or_appendix U s \<and>
         (\<exists>ws1 num c ws2. s = ws1 @ num @ [c] @ ws2 @ g2 @ rest \<and>
           (\<forall>w \<in> set ws1. re_space w) \<and> g1 = num @ [c] \<and> num \<noteq> [] \<and>
           (\<forall>d \<in> set num. uc_re_numeric U d) \<and> (c = 46 \<or> c = 41) \<and>
           ws2 \<noteq> [] \<and> (\<forall>w \<in> set ws2. re_space w) \<and>
           g2 \<noteq> [] \<and> (\<forall>c \<in> set g2. re_dot c) \<and> (rest = [] \<or> hd rest = 10))"
proof -
  from assms have nt: "\<not> toc_or_appendix U s"
    and g: "greedy re_space 0 s (\<lambda>ws1 s1. match_numeral U s1) = Some (g1, g2, rest)"
    by (auto simp: match_here_def split: if_splits)
  from greedy_Some [OF g] obtain ws1 s1 where 1: "s = ws1 @ s1"
    and w: "\<forall>w \<in> set ws1. re_space w" and m: "match_numeral U s1 = Some (g1, g2, rest)"
    by blast
  from match_numeral_Some [OF m] obtain num c ws2 where
    "s1 = num @ [c] @ ws2 @ g2 @ rest" "g1 = num @ [c]" "num \<noteq> []"
    "\<forall>d \<in> set num. uc_re_numeric U d" "c = 46 \<or> c = 41"
    "ws2 \<noteq> []" "\<forall>w \<in> set ws2. re_space w"
    "g2 \<noteq> []" "\<forall>c \<in> set g2. re_dot c" "rest = [] \<or> hd rest = 10"
    by blast
  with 1 w nt show ?thesis by blast
qed

lemma find_fields_candidates:
  "(g1, g2) \<in> set (find_fields U bol s) \<Longrightarrow>
   \<exists>num c. g1 = num @ [c] \<and> num \<noteq> [] \<and> (\<forall>d \<in> set num. uc_re_numeric U d) \<and>
     (c = 46 \<or> c = 41) \<and> g2 \<noteq> [] \<and> (\<forall>c \<in> set g2. re_dot c)"
proof (induction U bol s rule: find_fields.induct)
  case (1 U bol s)
  show ?case
  proof (cases "if bol then match_here U s else None")
    case None
    show ?thesis
    proof (cases s)
      case Nil
      with "1.prems" show ?thesis by (simp add: find_fields_Nil)
    next
      case (Cons c cs)
      with None "1.prems" have "(g1, g2) \<in> set (find_fields U (c = 10) cs)"
        by (subst (asm) find_fields.simps) simp
      then show ?thesis by (rule "1.IH"(1) [OF None Cons])
    qed
  next
    case (Some m)
    obtain h1 h2 rest where m: "m = (h1, h2, rest)" by (cases m) auto
    from Some m "1.prems" have "(g1, g2) = (h1, h2) \<or> (g1, g2) \<in> set (find_fields U False rest)"
      by (subst (asm) find_fields.simps) simp
    then show ?thesis
    proof
      assume e: "(g1, g2) = (h1, h2)"
      from Some m have "match_here U s = Some (h1, h2, rest)" by (simp split: if_splits)
      from match_here_Some [OF this] e show ?thesis by blast
    next
      assume "(g1, g2) \<in> set (find_fields U False rest)"
      then show ?thesis by (rule "1.IH"(2) [OF Some m [symmetric] refl])
    qed
  qed
qed

text \<open>
  C7. The fields are made from the candidates that \<open>finditer\<close> yields, in their order. The
  numeral token of a candidate is a non-empty run of numeric characters followed by a
  full stop or a closing parenthesis. For
  a candidate the characters of its numeral token that are no digits are removed and the
  rest is converted by \<open>int\<close>: the conversion fails when nothing is left, when a character
  left is no decimal digit for \<open>int\<close>, or when the digits are more than the interpreter
  allows; otherwise it gives the decimal value. A candidate whose conversion fails gives
  no field and leaves the fields of the candidates before and after it as they are; a
  candidate whose conversion succeeds gives its field, with the number converted, at its
  place.
\<close>

theorem static_field_parse:
  "(\<forall>g1 g2. field_of_match U (g1, g2) =
      (case py_int U (filter (uc_re_digit U) g1) of
         Inl e \<Rightarrow> None
       | Inr n \<Rightarrow>
           Some \<lparr>sf_field_number = n,
                 sf_label = map (\<lambda>c. if c = 10 then 32 else c) (strip g2),
                 sf_type = ascii ''text_input'', sf_required = True\<rparr>)) \<and>
   py_int U [] = Inl ValueError \<and>
   (\<forall>s c. c \<in> set s \<and> uc_int_digit U c = None \<longrightarrow> py_int U s = Inl ValueError) \<and>
   (\<forall>s m. int_max_str_digits U = Some m \<and> m < length s \<longrightarrow> py_int U s = Inl ValueError) \<and>
   (\<forall>s. s \<noteq> [] \<and> (\<forall>c \<in> set s. uc_int_digit U c \<noteq> None) \<and>
        (\<forall>m. int_max_str_digits U = Some m \<longrightarrow> length s \<le> m) \<longrightarrow>
        py_int U s = Inr (int (foldl (\<lambda>a c. 10 * a + the (uc_int_digit U c)) 0 s))) \<and>
   (\<forall>before m after. find_fields U True full_text = before @ m # after \<and>
        field_of_match U m = None \<longrightarrow>
        extract_static_form_fields U full_text =
          List.map_filter (field_of_match U) before @ List.map_filter (field_of_match U) after) \<and>
   (\<forall>before m after f. find_fields U True full_text = before @ m # after \<and>
        field_of_match U m = Some f \<longrightarrow>
        extract_static_form_fields U full_text =
          List.map_filter (field_of_match U) before @ f #
          List.map_filter (field_of_match U) after) \<and>
   length (extract_static_form_fields U full_text) =
     length (filter (\<lambda>m. field_of_match U m \<noteq> None) (find_fields U True full_text)) \<and>
   (\<forall>g1 g2. (g1, g2) \<in> set (find_fields U True full_text) \<longrightarrow>
      (\<exists>num c. g1 = num @ [c] \<and> num \<noteq> [] \<and> (\<forall>d \<in> set num. uc_re_numeric U d) \<and>
         (c = 46 \<or> c = 41) \<and>
         filter (uc_re_digit U) g1 = filter (uc_re_digit U) num @ (if uc_re_digit U c then [c] else [])))"
proof -
  have 1: "\<forall>g1 g2. field_of_match U (g1, g2) =
      (case py_int U (filter (uc_re_digit U) g1) of
         Inl e \<Rightarrow> None
       | Inr n \<Rightarrow>
           Some \<lparr>sf_field_number = n,
                 sf_label = map (\<lambda>c. if c = 10 then 32 else c) (strip g2),
                 sf_type = ascii ''text_input'', sf_required = True\<rparr>)"
    by (simp add: field_of_match_def Let_def)
  have 2: "py_int U [] = Inl ValueError" by (simp add: py_int_def)
  have 3: "\<forall>s c. c \<in> set s \<and> uc_int_digit U c = None \<longrightarrow> py_int U s = Inl ValueError"
    by (auto simp: py_int_def digits_value_invalid)
  have 4: "\<forall>s m. int_max_str_digits U = Some m \<and> m < length s \<longrightarrow> py_int U s = Inl ValueError"
    by (auto simp: py_int_def)
  have 5: "\<forall>s. s \<noteq> [] \<and> (\<forall>c \<in> set s. uc_int_digit U c \<noteq> None) \<and>
        (\<forall>m. int_max_str_digits U = Some m \<longrightarrow> length s \<le> m) \<longrightarrow>
        py_int U s = Inr (int (foldl (\<lambda>a c. 10 * a + the (uc_int_digit U c)) 0 s))"
  proof (intro allI impI)
    fix s
    assume a: "s \<noteq> [] \<and> (\<forall>c \<in> set s. uc_int_digit U c \<noteq> None) \<and>
        (\<forall>m. int_max_str_digits U = Some m \<longrightarrow> length s \<le> m)"
    then have "\<not> (case int_max_str_digits U of None \<Rightarrow> False | Some m \<Rightarrow> m < length s)"
      by (auto split: option.splits)
    moreover from a have
      "digits_value U 0 s = Some (foldl (\<lambda>a c. 10 * a + the (uc_int_digit U c)) 0 s)"
      by (simp add: digits_value_valid)
    ultimately show
      "py_int U s = Inr (int (foldl (\<lambda>a c. 10 * a + the (uc_int_digit U c)) 0 s))"
      using a by (simp add: py_int_def)
  qed
  have 6: "\<forall>before m after. find_fields U True full_text = before @ m # after \<and>
        field_of_match U m = None \<longrightarrow>
        extract_static_form_fields U full_text =
          List.map_filter (field_of_match U) before @ List.map_filter (field_of_match U) after"
    by (auto simp: extract_static_form_fields_def map_filter_append)
  have 7: "\<forall>before m after f. find_fields U True full_text = before @ m # after \<and>
        field_of_match U m = Some f \<longrightarrow>
        extract_static_form_fields U full_text =
          List.map_filter (field_of_match U) before @ f #
          List.map_filter (field_of_match U) after"
    by (auto simp: extract_static_form_fields_def map_filter_append)
  have 8: "length (extract_static_form_fields U full_text) =
     length (filter (\<lambda>m. field_of_match U m \<noteq> None) (find_fields U True full_text))"
    by (simp add: extract_static_form_fields_def map_filter_length)
  have 9: "\<forall>g1 g2. (g1, g2) \<in> set (find_fields U True full_text) \<longrightarrow>
      (\<exists>num c. g1 = num @ [c] \<and> num \<noteq> [] \<and> (\<forall>d \<in> set num. uc_re_numeric U d) \<and>
         (c = 46 \<or> c = 41) \<and>
         filter (uc_re_digit U) g1 = filter (uc_re_digit U) num @ (if uc_re_digit U c then [c] else []))"
  proof (intro allI impI)
    fix g1 g2
    assume "(g1, g2) \<in> set (find_fields U True full_text)"
    from find_fields_candidates [OF this] obtain num c where
      g: "g1 = num @ [c]" and r: "num \<noteq> []" "\<forall>d \<in> set num. uc_re_numeric U d" "c = 46 \<or> c = 41"
      by blast
    from g have "filter (uc_re_digit U) g1 =
        filter (uc_re_digit U) num @ (if uc_re_digit U c then [c] else [])"
      by simp
    with g r show "\<exists>num c. g1 = num @ [c] \<and> num \<noteq> [] \<and> (\<forall>d \<in> set num. uc_re_numeric U d) \<and>
         (c = 46 \<or> c = 41) \<and>
         filter (uc_re_digit U) g1 = filter (uc_re_digit U) num @ (if uc_re_digit U c then [c] else [])"
      by blast
  qed
  show ?thesis by (intro conjI) (fact 1 2 3 4 5 6 7 8 9)+
qed

theorem static_field_parse_witness:
  "find_fields sample_platform True superscript_text =
     [([178, 46], [65]), ([50, 178, 41], [66])] \<and>
   field_of_match sample_platform ([178, 46], [65]) = None \<and>
   extract_static_form_fields sample_platform superscript_text =
     [\<lparr>sf_field_number = 2, sf_label = [66], sf_type = ascii ''text_input'',
       sf_required = True\<rparr>]"
proof -
  note t = static_field_parse [where U = sample_platform and full_text = superscript_text]
  have c: "find_fields sample_platform True superscript_text =
      [] @ ([178, 46], [65]) # [([50, 178, 41], [66])]"
    using superscript_candidates by simp
  have n: "field_of_match sample_platform ([178, 46], [65]) = None"
    by (simp add: field_of_match_def py_int_def sample_tables)
  have f: "field_of_match sample_platform ([50, 178, 41], [66]) =
      Some \<lparr>sf_field_number = 2, sf_label = [66], sf_type = ascii ''text_input'',
        sf_required = True\<rparr>"
    by (simp add: field_of_match_def py_int_def sample_tables strip_def py_isspace_def)
  from t have "\<forall>before m after.
      find_fields sample_platform True superscript_text = before @ m # after \<and>
      field_of_match sample_platform m = None \<longrightarrow>
      extract_static_form_fields sample_platform superscript_text =
        List.map_filter (field_of_match sample_platform) before @
        List.map_filter (field_of_match sample_platform) after"
    by (elim conjE)
  then have "extract_static_form_fields sample_platform superscript_text =
      List.map_filter (field_of_match sample_platform) [] @
      List.map_filter (field_of_match sample_platform) [([50, 178, 41], [66])]"
    using c n by blast
  then have e: "extract_static_form_fields sample_platform superscript_text =
      [\<lparr>sf_field_number = 2, sf_label = [66], sf_type = ascii ''text_input'',
        sf_required = True\<rparr>]"
    by (simp add: List.map_filter_def f)
  show ?thesis using superscript_candidates n e by (intro conjI)
qed

section \<open>Lines of a text as static fields\<close>















subsection \<open>A match does not see the text after the line feed it ends before\<close>





























end
